theory Spec2Isabelle
  imports Main "HOL-Library.AList"
begin

section \<open>JavaScript values, futures and callbacks\<close>

text \<open>
  The combinators \<open>map\<close>, \<open>filter\<close>, \<open>hash\<close> and \<open>rethrow\<close> of
  \<open>lib/rsvp\<close> work on arbitrary JavaScript values. The values the combinators can tell
  apart are modelled by one datatype: primitives, error objects, arrays, plain objects,
  instances of the private class \<open>FilterResult\<close> of \<open>filter.js\<close> (fields \<open>value\<close> and
  \<open>returnedSuccessfully\<close>), and thenables, that is truthy objects with a callable
  \<open>then\<close> property.

  A thenable \<open>Thenable t st\<close> is described by what it eventually does: at time \<open>t\<close> it
  is resolved with a value (\<open>Fulfills\<close>), rejected with a reason (\<open>Rejects\<close>), or it stays
  pending for ever (\<open>Never\<close>). Times only order settlements; the scheduling model is
  single threaded, so any interleaving of settlements is given by a choice of times.
\<close>

datatype jsval =
    Undefined
  | Null
  | Bool bool
  | Num int
  | Str string
  | TypeError string
  | Arr "jsval list"
  | Obj "(string \<times> jsval) list"
  | FilterResult jsval bool
  | Thenable nat settle
and settle =
    Fulfills jsval
  | Rejects jsval
  | Never

text \<open>A call of a JavaScript function either returns or throws a value.\<close>

datatype 'a outcome = Return 'a | Throw jsval

text \<open>
  A callback (\<open>mapFn\<close>, \<open>filterFn\<close>) is a JavaScript closure: it may read and change
  state of its own between calls, so it is a function of the argument and of that state
  \<open>'s\<close>. A pure callback ignores and keeps the state.
\<close>

type_synonym 's jsfun = "jsval \<Rightarrow> 's \<Rightarrow> jsval outcome \<times> 's"

text \<open>The second argument of \<open>map\<close> and \<open>filter\<close> is any value, callable or not.\<close>

datatype 's callee = Fun "'s jsfun" | NotFun jsval

type_synonym jsobject = "(string \<times> jsval) list"

subsection \<open>Language primitives\<close>

text \<open>JavaScript's \<open>ToBoolean\<close>, as used by \<open>if (x)\<close>, \<open>x && y\<close> and \<open>!!x\<close>.\<close>

fun truthy :: "jsval \<Rightarrow> bool" where
  "truthy Undefined = False"
| "truthy Null = False"
| "truthy (Bool b) = b"
| "truthy (Num n) = (n \<noteq> 0)"
| "truthy (Str s) = (s \<noteq> [])"
| "truthy (TypeError m) = True"
| "truthy (Arr xs) = True"
| "truthy (Obj kvs) = True"
| "truthy (FilterResult v b) = True"
| "truthy (Thenable t st) = True"

fun typeof :: "jsval \<Rightarrow> string" where
  "typeof Undefined = ''undefined''"
| "typeof Null = ''object''"
| "typeof (Bool b) = ''boolean''"
| "typeof (Num n) = ''number''"
| "typeof (Str s) = ''string''"
| "typeof (TypeError m) = ''object''"
| "typeof (Arr xs) = ''object''"
| "typeof (Obj kvs) = ''object''"
| "typeof (FilterResult v b) = ''object''"
| "typeof (Thenable t st) = ''object''"

text \<open>
  Reading the property \<open>then\<close> of a value: on \<open>null\<close> and \<open>undefined\<close> the read itself
  raises (\<open>None\<close>); otherwise the result says whether the property is callable.
\<close>

fun callable_then :: "jsval \<Rightarrow> bool option" where
  "callable_then Undefined = None"
| "callable_then Null = None"
| "callable_then (Thenable t st) = Some True"
| "callable_then (Bool b) = Some False"
| "callable_then (Num n) = Some False"
| "callable_then (Str s) = Some False"
| "callable_then (TypeError m) = Some False"
| "callable_then (Arr xs) = Some False"
| "callable_then (Obj kvs) = Some False"
| "callable_then (FilterResult v b) = Some False"

text \<open>\<open>result instanceof FilterResult\<close> and the two fields of an instance.\<close>

fun instanceof_FilterResult :: "jsval \<Rightarrow> bool" where
  "instanceof_FilterResult (FilterResult v b) = True"
| "instanceof_FilterResult (Thenable t st) = False"
| "instanceof_FilterResult Undefined = False"
| "instanceof_FilterResult Null = False"
| "instanceof_FilterResult (Bool b) = False"
| "instanceof_FilterResult (Num n) = False"
| "instanceof_FilterResult (Str s) = False"
| "instanceof_FilterResult (TypeError m) = False"
| "instanceof_FilterResult (Arr xs) = False"
| "instanceof_FilterResult (Obj kvs) = False"

fun fr_value :: "jsval \<Rightarrow> jsval" where
  "fr_value (FilterResult v b) = v"
| "fr_value (Thenable t st) = Undefined"
| "fr_value Undefined = Undefined"
| "fr_value Null = Undefined"
| "fr_value (Bool b) = Undefined"
| "fr_value (Num n) = Undefined"
| "fr_value (Str s) = Undefined"
| "fr_value (TypeError m) = Undefined"
| "fr_value (Arr xs) = Undefined"
| "fr_value (Obj kvs) = Undefined"

fun fr_returnedSuccessfully :: "jsval \<Rightarrow> bool" where
  "fr_returnedSuccessfully (FilterResult v b) = b"
| "fr_returnedSuccessfully (Thenable t st) = False"
| "fr_returnedSuccessfully Undefined = False"
| "fr_returnedSuccessfully Null = False"
| "fr_returnedSuccessfully (Bool b) = False"
| "fr_returnedSuccessfully (Num n) = False"
| "fr_returnedSuccessfully (Str s) = False"
| "fr_returnedSuccessfully (TypeError m) = False"
| "fr_returnedSuccessfully (Arr xs) = False"
| "fr_returnedSuccessfully (Obj kvs) = False"

subsection \<open>The helpers of \<open>./utils\<close>\<close>

text \<open>
  Modelled from the spec: \<open>isArray\<close> and \<open>isFunction\<close> of \<open>./utils\<close> are not among the
  sources; the spec calls them the checks of "sequence-ness" and "callable-ness".
\<close>

fun isArray :: "jsval \<Rightarrow> bool" where
  "isArray (Arr xs) = True"
| "isArray (Thenable t st) = False"
| "isArray Undefined = False"
| "isArray Null = False"
| "isArray (Bool b) = False"
| "isArray (Num n) = False"
| "isArray (Str s) = False"
| "isArray (TypeError m) = False"
| "isArray (Obj kvs) = False"
| "isArray (FilterResult v b) = False"

fun isFunction :: "'s callee \<Rightarrow> bool" where
  "isFunction (Fun f) = True"
| "isFunction (NotFun v) = False"

text \<open>The elements of an array, and the call of a value that passed \<open>isFunction\<close>.\<close>

fun elems :: "jsval \<Rightarrow> jsval list" where
  "elems (Arr xs) = xs"
| "elems (Thenable t st) = []"
| "elems Undefined = []"
| "elems Null = []"
| "elems (Bool b) = []"
| "elems (Num n) = []"
| "elems (Str s) = []"
| "elems (TypeError m) = []"
| "elems (Obj kvs) = []"
| "elems (FilterResult v b) = []"

fun call :: "'s callee \<Rightarrow> 's jsfun" where
  "call (Fun f) = f"
| "call (NotFun v) = (\<lambda>x s. (Throw (TypeError ''not a function''), s))"

subsection \<open>The future primitive and the join primitive\<close>

text \<open>
  Modelled from the spec: the future primitive (\<open>./promise\<close>) and the join primitive
  \<open>all\<close> (\<open>./all\<close>) are not among the sources. The spec gives a future three states,
  pending, fulfilled and rejected, settled at most once; a future resolved with another
  thenable takes over that thenable's fate, so a fulfilment value is never a thenable.
  \<open>await\<close> is the fate of a value used where a future is expected (a plain value counts
  as fulfilled with itself) and \<open>settle_time\<close> is the time at which that fate is reached.
\<close>

fun await :: "jsval \<Rightarrow> settle" where
  "await (Thenable t (Fulfills v)) = await v"
| "await (Thenable t (Rejects r)) = Rejects r"
| "await (Thenable t Never) = Never"
| "await Undefined = Fulfills Undefined"
| "await Null = Fulfills Null"
| "await (Bool b) = Fulfills (Bool b)"
| "await (Num n) = Fulfills (Num n)"
| "await (Str s) = Fulfills (Str s)"
| "await (TypeError m) = Fulfills (TypeError m)"
| "await (Arr xs) = Fulfills (Arr xs)"
| "await (Obj kvs) = Fulfills (Obj kvs)"
| "await (FilterResult v b) = Fulfills (FilterResult v b)"

fun settle_time :: "jsval \<Rightarrow> nat" where
  "settle_time (Thenable t (Fulfills v)) = max t (settle_time v)"
| "settle_time (Thenable t (Rejects r)) = t"
| "settle_time (Thenable t Never) = t"
| "settle_time Undefined = 0"
| "settle_time Null = 0"
| "settle_time (Bool b) = 0"
| "settle_time (Num n) = 0"
| "settle_time (Str s) = 0"
| "settle_time (TypeError m) = 0"
| "settle_time (Arr xs) = 0"
| "settle_time (Obj kvs) = 0"
| "settle_time (FilterResult v b) = 0"

text \<open>
  Modelled from the spec: \<open>promise.then(onFulfilled)\<close> with no rejection handler. The
  new future settles when \<open>promise\<close> does: with what the handler returns, rejected with
  what the handler throws, or with the rejection of \<open>promise\<close> passed through.
\<close>

definition then_rsvp :: "jsval \<Rightarrow> (jsval \<Rightarrow> jsval outcome) \<Rightarrow> jsval" where
  "then_rsvp promise onFulfilled =
     Thenable (settle_time promise)
       (case await promise of
          Fulfills v \<Rightarrow> (case onFulfilled v of Return x \<Rightarrow> Fulfills x | Throw e \<Rightarrow> Rejects e)
        | Rejects reason \<Rightarrow> Rejects reason
        | Never \<Rightarrow> Never)"

text \<open>
  Modelled from the spec: the join primitive "produces one future that settles with the
  ordered sequence of resolved values once all inputs have settled successfully, or
  rejects with the reason of the first input to fail". \<open>first_failure\<close> is the earliest
  rejection among the inputs (the lower index where two times are equal).
\<close>

fun first_failure :: "jsval list \<Rightarrow> (nat \<times> jsval) option" where
  "first_failure [] = None"
| "first_failure (p # ps) =
     (case await p of
        Rejects r \<Rightarrow>
          (case first_failure ps of
             Some (t', r') \<Rightarrow> if settle_time p \<le> t' then Some (settle_time p, r) else Some (t', r')
           | None \<Rightarrow> Some (settle_time p, r))
      | Fulfills v \<Rightarrow> first_failure ps
      | Never \<Rightarrow> first_failure ps)"

definition fulfilment :: "jsval \<Rightarrow> jsval option" where
  "fulfilment p = (case await p of Fulfills v \<Rightarrow> Some v | Rejects r \<Rightarrow> None | Never \<Rightarrow> None)"

definition "all" :: "jsval \<Rightarrow> jsval \<Rightarrow> settle" where
  "all promises label =
     (case first_failure (elems promises) of
        Some (t, reason) \<Rightarrow> Rejects reason
      | None \<Rightarrow>
          (case those (map fulfilment (elems promises)) of
             Some results \<Rightarrow> Fulfills (Arr results)
           | None \<Rightarrow> Never))"

section \<open>\<open>map\<close> (\<open>lib/rsvp/map.js\<close>)\<close>

text \<open>
  What a call of \<open>map\<close> or \<open>filter\<close> does: \<open>outcome\<close> is \<open>Inl e\<close> when the call throws
  \<open>e\<close> synchronously and \<open>Inr st\<close> when it returns a future whose fate is \<open>st\<close>;
  \<open>fnState\<close> is the callback's state afterwards; \<open>calls\<close> lists the arguments the
  callback was invoked on, in order.
\<close>

record 's run =
  outcome :: "jsval + settle"
  fnState :: 's
  calls :: "jsval list"

text \<open>
  The loop \<open>for (i = 0; i < resultLen; i++) mappedResults.push(mapFn(results[i]))\<close>; an
  exception of \<open>mapFn\<close> leaves the loop.
\<close>

fun map_loop :: "'s jsfun \<Rightarrow> jsval list \<Rightarrow> jsval list \<Rightarrow> 's \<Rightarrow> jsval list
    \<Rightarrow> jsval list outcome \<times> 's \<times> jsval list" where
  "map_loop mapFn [] mappedResults s cs = (Return mappedResults, s, cs)"
| "map_loop mapFn (result # rest) mappedResults s cs =
     (case mapFn result s of
        (Throw e, s') \<Rightarrow> (Throw e, s', cs @ [result])
      | (Return v, s') \<Rightarrow> map_loop mapFn rest (mappedResults @ [v]) s' (cs @ [result]))"

definition map_rsvp :: "jsval \<Rightarrow> 's callee \<Rightarrow> jsval \<Rightarrow> 's \<Rightarrow> 's run" where
  "map_rsvp promises mapFn label s =
    (if \<not> isArray promises then
       \<lparr>outcome = Inl (TypeError ''You must pass an array to map.''), fnState = s, calls = []\<rparr>
     else if \<not> isFunction mapFn then
       \<lparr>outcome = Inl (TypeError ''You must pass a function to map's second argument.''),
        fnState = s, calls = []\<rparr>
     else
       (case all promises label of
          Rejects reason \<Rightarrow> \<lparr>outcome = Inr (Rejects reason), fnState = s, calls = []\<rparr>
        | Never \<Rightarrow> \<lparr>outcome = Inr Never, fnState = s, calls = []\<rparr>
        | Fulfills results \<Rightarrow>
            (case map_loop (call mapFn) (elems results) [] s [] of
               (Throw e, s', cs) \<Rightarrow> \<lparr>outcome = Inr (Rejects e), fnState = s', calls = cs\<rparr>
             | (Return mappedResults, s', cs) \<Rightarrow>
                 \<lparr>outcome = Inr (Fulfills (Arr mappedResults)), fnState = s', calls = cs\<rparr>)))"

section \<open>\<open>filter\<close> (\<open>lib/rsvp/filter.js\<close>)\<close>

text \<open>
  The constructor \<open>FilterResult(value, returnedSuccessfully)\<close> stores
  \<open>!!returnedSuccessfully\<close>, and \<open>FilterResult.fromFilterPromise\<close> chains it on the
  future a predicate returned.
\<close>

definition new_FilterResult :: "jsval \<Rightarrow> jsval \<Rightarrow> jsval" where
  "new_FilterResult v returnedSuccessfully = FilterResult v (truthy returnedSuccessfully)"

definition fromFilterPromise :: "jsval \<Rightarrow> jsval \<Rightarrow> jsval" where
  "fromFilterPromise promise originalValue =
     then_rsvp promise (\<lambda>v. Return (new_FilterResult originalValue v))"

text \<open>
  The loop over \<open>results\<close> in the continuation of \<open>filter\<close>, with the variables
  \<open>filteredResults\<close> and \<open>hasPromises\<close> it updates. The test
  \<open>isFunction(filteredResult.then)\<close> is only reached for a truthy \<open>filteredResult\<close>.
\<close>

fun filter_loop :: "'s jsfun \<Rightarrow> jsval list \<Rightarrow> jsval list \<Rightarrow> bool \<Rightarrow> 's \<Rightarrow> jsval list
    \<Rightarrow> (jsval list \<times> bool) outcome \<times> 's \<times> jsval list" where
  "filter_loop filterFn [] filteredResults hasPromises s cs =
     (Return (filteredResults, hasPromises), s, cs)"
| "filter_loop filterFn (result # rest) filteredResults hasPromises s cs =
     (if instanceof_FilterResult result then
        (if fr_returnedSuccessfully result then
           filter_loop filterFn rest (filteredResults @ [fr_value result]) hasPromises s cs
         else filter_loop filterFn rest filteredResults hasPromises s cs)
      else
        (case filterFn result s of
           (Throw e, s') \<Rightarrow> (Throw e, s', cs @ [result])
         | (Return filteredResult, s') \<Rightarrow>
             if truthy filteredResult then
               (if typeof filteredResult = ''object'' \<and> callable_then filteredResult = Some True then
                  filter_loop filterFn rest
                    (filteredResults @ [fromFilterPromise filteredResult result]) True s'
                    (cs @ [result])
                else filter_loop filterFn rest (filteredResults @ [result]) hasPromises s'
                    (cs @ [result]))
             else filter_loop filterFn rest filteredResults hasPromises s' (cs @ [result])))"

text \<open>
  A run of \<open>filter\<close> also counts how often \<open>filter\<close> called itself. The continuation
  returns either \<open>filteredResults\<close> or the future of the recursive call, which the
  returned future then follows (an exception of the recursive call would reject it
  instead); the recursion need not end, so \<open>filter_rsvp\<close> is a
  partial function and \<open>None\<close> means that the passes go on for ever (the returned
  future stays pending while the predicate is called again and again).
\<close>

record 's filter_run = "'s run" +
  recursions :: nat

partial_function (option) filter_rsvp ::
    "jsval \<Rightarrow> 's callee \<Rightarrow> jsval \<Rightarrow> 's \<Rightarrow> 's filter_run option" where
  "filter_rsvp promises filterFn label s =
    (if \<not> isArray promises then
       Some \<lparr>outcome = Inl (TypeError ''You must pass an array to filter.''),
             fnState = s, calls = [], recursions = 0\<rparr>
     else if \<not> isFunction filterFn then
       Some \<lparr>outcome = Inl (TypeError ''You must pass a function to filter's second argument.''),
             fnState = s, calls = [], recursions = 0\<rparr>
     else
       (case all promises label of
          Rejects reason \<Rightarrow>
            Some \<lparr>outcome = Inr (Rejects reason), fnState = s, calls = [], recursions = 0\<rparr>
        | Never \<Rightarrow> Some \<lparr>outcome = Inr Never, fnState = s, calls = [], recursions = 0\<rparr>
        | Fulfills results \<Rightarrow>
            (case filter_loop (call filterFn) (elems results) [] False s [] of
               (Throw e, s', cs) \<Rightarrow>
                 Some \<lparr>outcome = Inr (Rejects e), fnState = s', calls = cs, recursions = 0\<rparr>
             | (Return (filteredResults, hasPromises), s', cs) \<Rightarrow>
                 if hasPromises then
                   Option.bind (filter_rsvp (Arr filteredResults) filterFn label s')
                     (\<lambda>r. Some \<lparr>outcome = (case outcome r of Inl e \<Rightarrow> Inr (Rejects e)
                                              | Inr st \<Rightarrow> Inr st),
                                  fnState = fnState r, calls = cs @ calls r,
                                  recursions = Suc (recursions r)\<rparr>)
                 else
                   Some \<lparr>outcome = Inr (Fulfills (Arr filteredResults)), fnState = s',
                         calls = cs, recursions = 0\<rparr>)))"

section \<open>\<open>hash\<close>\<close>

text \<open>
  The keyed mapping is the list of its properties; \<open>keysOf\<close> enumerates the keys and
  \<open>get\<close> reads a property (\<open>undefined\<close> when there is none).
\<close>

definition keysOf :: "jsobject \<Rightarrow> string list" where
  "keysOf object = map fst object"

definition get :: "jsobject \<Rightarrow> string \<Rightarrow> jsval" where
  "get object prop = (case map_of object prop of Some v \<Rightarrow> v | None \<Rightarrow> Undefined)"

text \<open>
  The variables the closures of \<open>hash\<close> share: \<open>results\<close> and \<open>remaining\<close>, the state of
  the returned future (\<open>None\<close> while pending) and the keys whose entry got the handlers
  \<open>resolver(prop)\<close> and \<open>reject\<close> attached with \<open>then\<close>.
\<close>

record hash_state =
  results :: jsobject
  remaining :: int
  settled :: "settle option"
  attached :: "string list"

text \<open>
  Modelled from the spec: \<open>resolve\<close> and \<open>reject\<close> are handed to the initializer by the
  future primitive; a future settles once and later attempts are no-ops.
\<close>

definition resolve :: "jsval \<Rightarrow> hash_state \<Rightarrow> hash_state" where
  "resolve v st = (if settled st = None then st\<lparr>settled := Some (Fulfills v)\<rparr> else st)"

definition reject :: "jsval \<Rightarrow> hash_state \<Rightarrow> hash_state" where
  "reject reason st = (if settled st = None then st\<lparr>settled := Some (Rejects reason)\<rparr> else st)"

definition resolveAll :: "string \<Rightarrow> jsval \<Rightarrow> hash_state \<Rightarrow> hash_state" where
  "resolveAll prop v st =
     (let st' = st\<lparr>results := AList.update prop v (results st), remaining := remaining st - 1\<rparr>
      in if remaining st' = 0 then resolve (Obj (results st')) st' else st')"

definition resolver :: "string \<Rightarrow> jsval \<Rightarrow> hash_state \<Rightarrow> hash_state" where
  "resolver prop = (\<lambda>v. resolveAll prop v)"

text \<open>
  The loop over the keys in the initializer. \<open>promise && isFunction(promise.then)\<close>
  reads \<open>then\<close> only of a truthy entry; a read that raised would leave the loop.
\<close>

fun hash_loop :: "jsobject \<Rightarrow> string list \<Rightarrow> hash_state \<Rightarrow> hash_state outcome" where
  "hash_loop object [] st = Return st"
| "hash_loop object (prop # props) st =
     (let promise = get object prop in
      if truthy promise then
        (case callable_then promise of
           None \<Rightarrow> Throw (TypeError ''Cannot read property 'then' '')
         | Some True \<Rightarrow> hash_loop object props (st\<lparr>attached := attached st @ [prop]\<rparr>)
         | Some False \<Rightarrow> hash_loop object props (resolveAll prop promise st))
      else hash_loop object props (resolveAll prop promise st))"

definition hash_init :: "jsobject \<Rightarrow> hash_state" where
  "hash_init object =
     \<lparr>results = [], remaining = int (length (keysOf object)), settled = None, attached = []\<rparr>"

definition hash_executor :: "jsobject \<Rightarrow> hash_state \<Rightarrow> hash_state outcome" where
  "hash_executor object st =
     (if remaining st = 0 then Return (resolve (Obj []) st)
      else hash_loop object (keysOf object) st)"

text \<open>
  After the initializer the attached handlers run as the entries settle, one entry after
  the other in the order of their settlement: \<open>resolver(prop)\<close> on fulfilment, \<open>reject\<close>
  on rejection, nothing for an entry that stays pending.
\<close>

fun hash_handlers :: "jsobject \<Rightarrow> string list \<Rightarrow> hash_state \<Rightarrow> hash_state" where
  "hash_handlers object [] st = st"
| "hash_handlers object (prop # props) st =
     hash_handlers object props
       (case await (get object prop) of
          Fulfills v \<Rightarrow> resolver prop v st
        | Rejects reason \<Rightarrow> reject reason st
        | Never \<Rightarrow> st)"

definition settle_order :: "jsobject \<Rightarrow> string list \<Rightarrow> string list" where
  "settle_order object props = sort_key (\<lambda>prop. settle_time (get object prop)) props"

text \<open>
  \<open>hash\<close> returns the new future; its fate is the state the handlers leave it in. An
  exception in the initializer would reject the future, a case the loop never reaches.
\<close>

definition hash :: "jsobject \<Rightarrow> jsval \<Rightarrow> settle" where
  "hash object label =
     (case hash_executor object (hash_init object) of
        Throw e \<Rightarrow> Rejects e
      | Return st \<Rightarrow>
          (case settled (hash_handlers object (settle_order object (attached st)) st) of
             Some fate \<Rightarrow> fate
           | None \<Rightarrow> Never))"

section \<open>\<open>rethrow\<close> (\<open>lib/rsvp/rethrow.js\<close>)\<close>

text \<open>
  The ambient task queue holds the callbacks handed to \<open>setTimeout\<close>; a task is run on
  a later turn of the event loop and whatever it throws is an unhandled error.
  \<open>rethrow\<close> queues the closure \<open>function() { throw reason; }\<close> and throws.
\<close>

type_synonym task = "unit \<Rightarrow> unit outcome"

definition setTimeout :: "task \<Rightarrow> task list \<Rightarrow> task list" where
  "setTimeout callback queue = queue @ [callback]"

definition rethrow :: "jsval \<Rightarrow> task list \<Rightarrow> jsval outcome \<times> task list" where
  "rethrow reason queue = (Throw reason, setTimeout (\<lambda>_. Throw reason) queue)"

text \<open>
  Modelled from the spec: \<open>promise.fail(onRejected)\<close> of the future primitive, the use
  the documentation of \<open>rethrow\<close> shows. The handler runs when \<open>promise\<close> is rejected;
  what it throws rejects the new future.
\<close>

definition fail_rsvp :: "jsval \<Rightarrow> (jsval \<Rightarrow> task list \<Rightarrow> jsval outcome \<times> task list)
    \<Rightarrow> task list \<Rightarrow> settle \<times> task list" where
  "fail_rsvp promise onRejected queue =
     (case await promise of
        Fulfills v \<Rightarrow> (Fulfills v, queue)
      | Never \<Rightarrow> (Never, queue)
      | Rejects reason \<Rightarrow>
          (case onRejected reason queue of
             (Return x, queue') \<Rightarrow> (await x, queue')
           | (Throw e, queue') \<Rightarrow> (Rejects e, queue')))"

section \<open>Notions used to state the properties\<close>

text \<open>
  A value is treated as a future by \<open>hash\<close> and by the join exactly when it is truthy
  and its \<open>then\<close> property is callable.
\<close>

definition thenable :: "jsval \<Rightarrow> bool" where
  "thenable v \<longleftrightarrow> truthy v \<and> callable_then v = Some True"

text \<open>
  A plain value is neither an instance of \<open>FilterResult\<close> nor a thenable. An entry
  resolves to a marker when it is, or fulfills with, an instance of \<open>FilterResult\<close>; the
  class is private to \<open>filter.js\<close>, so no caller can pass such an entry.
\<close>

definition plain :: "jsval \<Rightarrow> bool" where
  "plain v \<longleftrightarrow> \<not> instanceof_FilterResult v \<and> \<not> thenable v"

definition resolves_to_marker :: "jsval \<Rightarrow> bool" where
  "resolves_to_marker p =
     (case await p of Fulfills v \<Rightarrow> instanceof_FilterResult v | Rejects r \<Rightarrow> False | Never \<Rightarrow> False)"

text \<open>
  The invariant of the passes of \<open>filter\<close>: a settled value is not a thenable, and where
  it is a marker its item is plain; an entry is in order when the value it fulfills with
  is.
\<close>

definition settled_ok :: "jsval \<Rightarrow> bool" where
  "settled_ok v \<longleftrightarrow> \<not> thenable v \<and> (if instanceof_FilterResult v then plain (fr_value v) else True)"

definition entry_ok :: "jsval \<Rightarrow> bool" where
  "entry_ok p = (case await p of Fulfills v \<Rightarrow> settled_ok v | Rejects r \<Rightarrow> True | Never \<Rightarrow> True)"

text \<open>
  A predicate answers independently of its state when its result for an item is the same
  whenever it is asked (its state may still change, as a counter of calls does).
  \<open>keeps f x\<close>: the predicate answers \<open>x\<close> with a truthy value that is not a future.
  \<open>pending_marker a\<close>: \<open>a\<close> is a future that can only fulfill with a marker.
\<close>

definition pure_answers :: "'s jsfun \<Rightarrow> bool" where
  "pure_answers f \<longleftrightarrow> (\<forall>x s s'. fst (f x s) = fst (f x s'))"

definition keeps :: "'s jsfun \<Rightarrow> jsval \<Rightarrow> bool" where
  "keeps f x \<longleftrightarrow>
     (\<forall>s. case fst (f x s) of
            Return v \<Rightarrow> truthy v \<and> \<not> (typeof v = ''object'' \<and> callable_then v = Some True)
          | Throw e \<Rightarrow> False)"

definition pending_marker :: "jsval \<Rightarrow> bool" where
  "pending_marker a \<longleftrightarrow>
     thenable a \<and>
     (case await a of Fulfills v \<Rightarrow> instanceof_FilterResult v | Rejects r \<Rightarrow> True | Never \<Rightarrow> True)"

text \<open>
  \<open>awaited p\<close> is the value an entry fulfills with. \<open>fails_first ps r\<close>: some entry of
  \<open>ps\<close> is rejected with \<open>r\<close>, and every entry that is rejected is that entry or is
  rejected strictly later.
\<close>

definition awaited :: "jsval \<Rightarrow> jsval" where
  "awaited p = (case await p of Fulfills v \<Rightarrow> v | Rejects r \<Rightarrow> Undefined | Never \<Rightarrow> Undefined)"

definition fails_first :: "jsval list \<Rightarrow> jsval \<Rightarrow> bool" where
  "fails_first ps r \<longleftrightarrow>
     (\<exists>p\<in>set ps. await p = Rejects r \<and>
        (\<forall>q\<in>set ps. case await q of
                        Rejects r' \<Rightarrow> q = p \<or> settle_time p < settle_time q
                      | Fulfills v \<Rightarrow> True
                      | Never \<Rightarrow> True))"

text \<open>
  A predicate with a call counter: it answers \<open>true\<close> at its first call and with a
  future of \<open>true\<close> at every later call. \<open>flaky_pass\<close> holds of the two sequences that
  \<open>filter\<close> hands to itself in turn under this predicate.
\<close>

definition flaky :: "nat jsfun" where
  "flaky x n =
     (Return (if n = 0 then Bool True else Thenable 0 (Fulfills (Bool True))), Suc n)"

definition flaky_pass :: "jsval \<Rightarrow> bool" where
  "flaky_pass p \<longleftrightarrow>
     p = Arr [Num 1, fromFilterPromise (Thenable 0 (Fulfills (Bool True))) (Num 2)]
   \<or> p = Arr [fromFilterPromise (Thenable 0 (Fulfills (Bool True))) (Num 1), Num 2]"

section \<open>Basic facts\<close>

lemma thenableE: "thenable v \<Longrightarrow> (\<And>t st. v = Thenable t st \<Longrightarrow> P) \<Longrightarrow> P"
  by (cases v) (auto simp: thenable_def)

lemma thenable_typeof: "thenable v \<Longrightarrow> typeof v = ''object''"
  by (erule thenableE) simp

lemma await_plain: "\<not> thenable v \<Longrightarrow> await v = Fulfills v"
  by (cases v) (auto simp: thenable_def)

lemma await_not_thenable: "await p = Fulfills v \<Longrightarrow> \<not> thenable v"
  by (induction p rule: await.induct) (auto simp: thenable_def)

lemma rejects_thenable: "await p = Rejects r \<Longrightarrow> thenable p"
  by (cases p) (auto simp: thenable_def)

lemma first_failure_plain: "\<forall>x\<in>set xs. \<not> thenable x \<Longrightarrow> first_failure xs = None"
  by (induction xs) (auto simp: await_plain)

lemma those_plain: "\<forall>x\<in>set xs. \<not> thenable x \<Longrightarrow> those (map fulfilment xs) = Some xs"
  by (induction xs) (auto simp: await_plain fulfilment_def)

lemma all_plain: "\<forall>x\<in>set xs. \<not> thenable x \<Longrightarrow> all (Arr xs) label = Fulfills (Arr xs)"
  by (simp add: all_def first_failure_plain those_plain)

lemma fromFilterPromise_await:
  "await (fromFilterPromise p x) =
     (case await p of Fulfills v \<Rightarrow> Fulfills (FilterResult x (truthy v))
      | Rejects r \<Rightarrow> Rejects r | Never \<Rightarrow> Never)"
  by (simp add: fromFilterPromise_def then_rsvp_def new_FilterResult_def split: settle.splits)

subsection \<open>The loop of \<open>map\<close>\<close>

lemma map_loop_pure:
  "map_loop (\<lambda>x s. (Return (f x), s)) xs acc s cs = (Return (acc @ map f xs), s, cs @ xs)"
  by (induction xs arbitrary: acc cs) auto

lemma map_loop_append:
  "map_loop f (xs @ ys) acc s cs =
     (case map_loop f xs acc s cs of
        (Return m, s', cs') \<Rightarrow> map_loop f ys m s' cs'
      | (Throw e, s', cs') \<Rightarrow> (Throw e, s', cs'))"
  by (induction xs arbitrary: acc s cs) (auto split: prod.splits outcome.splits)

lemma map_loop_calls:
  "map_loop f xs acc s cs = (Return m, s', cs') \<Longrightarrow> cs' = cs @ xs"
proof (induction xs arbitrary: acc s cs)
  case Nil
  then show ?case by simp
next
  case (Cons a xs)
  then show ?case by (fastforce split: prod.splits outcome.splits)
qed

section \<open>Properties of \<open>map\<close>\<close>

text \<open>
  C5: for a sequence \<open>S\<close> of plain values (none of them a thenable) and a pure transform
  \<open>f\<close>, \<open>map(S, f)\<close> returns a future that fulfills with a sequence \<open>R\<close> of the length of
  \<open>S\<close> with \<open>R[i] = f(S[i])\<close> at every index; \<open>f\<close> is applied once per item, in ascending
  index order. The hypothesis that \<open>S\<close> is not empty is not needed.
\<close>

theorem map_plain_pure:
  assumes "\<forall>x\<in>set S. \<not> thenable x"
  shows "\<exists>R. map_rsvp (Arr S) (Fun (\<lambda>x s. (Return (f x), s))) label s =
              \<lparr>outcome = Inr (Fulfills (Arr R)), fnState = s, calls = S\<rparr>
            \<and> length R = length S \<and> (\<forall>i<length S. R ! i = f (S ! i))"
  using assms by (simp add: map_rsvp_def all_plain map_loop_pure)

theorem map_plain_pure_witness:
  "\<exists>R. map_rsvp (Arr [Num 1, Str ''b'']) (Fun (\<lambda>x s. (Return (Arr [x]), s))) Undefined () =
          \<lparr>outcome = Inr (Fulfills (Arr R)), fnState = (), calls = [Num 1, Str ''b'']\<rparr>
        \<and> length R = 2 \<and> R ! 0 = Arr [Num 1] \<and> R ! 1 = Arr [Str ''b'']"
proof -
  have h: "\<forall>x\<in>set [Num 1, Str ''b'']. \<not> thenable x"
    by (simp add: thenable_def)
  show ?thesis
    using map_plain_pure [OF h, of "\<lambda>x. Arr [x]" Undefined "()"] by (auto simp: less_Suc_eq)
qed

text \<open>
  C7: when the join has fulfilled and the transformation, having returned for the values
  before \<open>x\<close>, raises \<open>e\<close> on the settled value \<open>x\<close>, the call of \<open>map\<close> still returns a
  future (nothing is thrown synchronously) and that future rejects with exactly \<open>e\<close>;
  the values after \<open>x\<close> are not transformed.
\<close>

theorem map_transform_raises:
  assumes "isArray promises" and "all promises label = Fulfills (Arr (xs @ x # ys))"
    and "map_loop f xs [] s [] = (Return vs, s1, cs)" and "f x s1 = (Throw e, s2)"
  shows "map_rsvp promises (Fun f) label s =
           \<lparr>outcome = Inr (Rejects e), fnState = s2, calls = xs @ [x]\<rparr>"
  using assms map_loop_calls[OF assms(3)]
  by (simp add: map_rsvp_def map_loop_append)

theorem map_transform_raises_witness:
  "map_rsvp (Arr [Num 1, Thenable 3 (Fulfills (Num 0)), Num 2])
      (Fun (\<lambda>x s. (if x = Num 0 then Throw (Str ''zero'') else Return x, Suc s))) Undefined 0 =
     \<lparr>outcome = Inr (Rejects (Str ''zero'')), fnState = 2, calls = [Num 1, Num 0]\<rparr>"
proof -
  let ?f = "\<lambda>x s. (if x = Num 0 then Throw (Str ''zero'') else Return x, Suc s)"
  have a: "isArray (Arr [Num 1, Thenable 3 (Fulfills (Num 0)), Num 2])"
    by simp
  have b: "all (Arr [Num 1, Thenable 3 (Fulfills (Num 0)), Num 2]) Undefined =
             Fulfills (Arr ([Num 1] @ Num 0 # [Num 2]))"
    by (simp add: all_def fulfilment_def)
  have c: "map_loop ?f [Num 1] [] 0 [] = (Return [Num 1], Suc 0, [Num 1])"
    by simp
  have d: "?f (Num 0) (Suc 0) = (Throw (Str ''zero''), 2)"
    by simp
  show ?thesis
    using map_transform_raises [OF a b c d] by simp
qed

section \<open>Argument validation of \<open>map\<close> and \<open>filter\<close>\<close>

text \<open>
  C6: when the first argument is not a sequence or the second is not callable, \<open>map\<close>
  and \<open>filter\<close> each throw a \<open>TypeError\<close> synchronously: no future is returned, the
  callback is not invoked and its state is untouched.
\<close>

theorem map_filter_invalid_arguments:
  assumes "\<not> isArray promises \<or> \<not> isFunction fn"
  shows "(\<exists>m. map_rsvp promises fn label s =
            \<lparr>outcome = Inl (TypeError m), fnState = s, calls = []\<rparr>)
       \<and> (\<exists>m. filter_rsvp promises fn label s =
            Some \<lparr>outcome = Inl (TypeError m), fnState = s, calls = [], recursions = 0\<rparr>)"
  using assms by (auto simp: map_rsvp_def filter_rsvp.simps)

theorem map_filter_invalid_arguments_witness:
  "(\<exists>m. map_rsvp (Arr [Num 1]) (NotFun (Str ''f'')) Undefined (0::nat) =
            \<lparr>outcome = Inl (TypeError m), fnState = 0, calls = []\<rparr>)
   \<and> (\<exists>m. filter_rsvp (Arr [Num 1]) (NotFun (Str ''f'')) Undefined (0::nat) =
            Some \<lparr>outcome = Inl (TypeError m), fnState = 0, calls = [], recursions = 0\<rparr>)"
proof -
  have h: "\<not> isArray (Arr [Num 1]) \<or> \<not> isFunction (NotFun (Str ''f'') :: nat callee)"
    by simp
  show ?thesis
    using map_filter_invalid_arguments [OF h] by blast
qed

section \<open>Properties of \<open>filter\<close>\<close>

text \<open>
  C1: the join settles with the two items \<open>a\<close> and \<open>b\<close>, and the predicate answers each
  with a future, the one for \<open>a\<close> fulfilling with a truthy value (such as \<open>true\<close>) and the
  one for \<open>b\<close> with a falsy value (such as \<open>false\<close>). Then \<open>filter\<close> fulfills with \<open>[a]\<close>,
  calls itself exactly once, and invokes the predicate exactly once on \<open>a\<close> and once on
  \<open>b\<close>: the second pass makes no call.
\<close>

theorem filter_async_predicate:
  assumes "isArray promises" and "all promises label = Fulfills (Arr [a, b])"
    and "\<not> instanceof_FilterResult a" and "\<not> instanceof_FilterResult b"
    and "f a s = (Return pa, s1)" and "thenable pa" and "await pa = Fulfills va" and "truthy va"
    and "f b s1 = (Return pb, s2)" and "thenable pb" and "await pb = Fulfills vb" and "\<not> truthy vb"
  shows "filter_rsvp promises (Fun f) label s =
           Some \<lparr>outcome = Inr (Fulfills (Arr [a])), fnState = s2, calls = [a, b], recursions = 1\<rparr>"
proof -
  let ?ma = "fromFilterPromise pa a" and ?mb = "fromFilterPromise pb b"
  have loop1: "filter_loop f [a, b] [] False s [] = (Return ([?ma, ?mb], True), s2, [a, b])"
    using assms by (simp add: thenable_def thenable_typeof)
  have aw: "await ?ma = Fulfills (FilterResult a True)" "await ?mb = Fulfills (FilterResult b False)"
    using assms by (simp_all add: fromFilterPromise_await)
  have join2: "all (Arr [?ma, ?mb]) label = Fulfills (Arr [FilterResult a True, FilterResult b False])"
    by (simp add: all_def fulfilment_def aw)
  have pass2: "filter_rsvp (Arr [?ma, ?mb]) (Fun f) label s2 =
      Some \<lparr>outcome = Inr (Fulfills (Arr [a])), fnState = s2, calls = [], recursions = 0\<rparr>"
    by (subst filter_rsvp.simps) (simp add: join2)
  show ?thesis
    by (subst filter_rsvp.simps) (simp add: assms(1,2) loop1 pass2 del: filter_loop.simps)
qed

theorem filter_async_predicate_witness:
  "filter_rsvp (Arr [Str ''alice'', Thenable 2 (Fulfills (Str ''bob''))])
      (Fun (\<lambda>x s. (Return (Thenable (5 + s) (Fulfills (Bool (x = Str ''alice'')))), Suc s)))
      Undefined 0 =
     Some \<lparr>outcome = Inr (Fulfills (Arr [Str ''alice''])), fnState = 2,
           calls = [Str ''alice'', Str ''bob''], recursions = 1\<rparr>"
proof -
  let ?f = "\<lambda>x s. (Return (Thenable (5 + s) (Fulfills (Bool (x = Str ''alice'')))), Suc s)"
  have a: "isArray (Arr [Str ''alice'', Thenable 2 (Fulfills (Str ''bob''))])"
    by simp
  have b: "all (Arr [Str ''alice'', Thenable 2 (Fulfills (Str ''bob''))]) Undefined =
             Fulfills (Arr [Str ''alice'', Str ''bob''])"
    by (simp add: all_def fulfilment_def)
  have c: "\<not> instanceof_FilterResult (Str ''alice'')" "\<not> instanceof_FilterResult (Str ''bob'')"
    by simp_all
  have d: "?f (Str ''alice'') 0 = (Return (Thenable 5 (Fulfills (Bool True))), Suc 0)"
    "?f (Str ''bob'') (Suc 0) = (Return (Thenable 6 (Fulfills (Bool False))), 2)"
    by simp_all
  have e: "thenable (Thenable 5 (Fulfills (Bool True)))" "thenable (Thenable 6 (Fulfills (Bool False)))"
    by (simp_all add: thenable_def)
  have g: "await (Thenable 5 (Fulfills (Bool True))) = Fulfills (Bool True)"
    "await (Thenable 6 (Fulfills (Bool False))) = Fulfills (Bool False)"
    "truthy (Bool True)" "\<not> truthy (Bool False)"
    by simp_all
  show ?thesis
    using filter_async_predicate [OF a b c d(1) e(1) g(1) g(3) d(2) e(2) g(2) g(4)] by simp
qed

subsection \<open>The result of \<open>filter\<close> holds no marker\<close>

lemma instanceof_FilterResultE:
  "instanceof_FilterResult v \<Longrightarrow> (\<And>x b. v = FilterResult x b \<Longrightarrow> P) \<Longrightarrow> P"
  by (cases v) auto

lemma FilterResult_not_thenable: "instanceof_FilterResult v \<Longrightarrow> \<not> thenable v"
  by (erule instanceof_FilterResultE) (simp add: thenable_def)

lemma plain_entry_ok: "plain a \<Longrightarrow> entry_ok a"
  by (simp add: plain_def entry_ok_def settled_ok_def await_plain)

lemma marker_entry_ok: "plain x \<Longrightarrow> entry_ok (fromFilterPromise p x)"
  unfolding entry_ok_def fromFilterPromise_await
  by (cases "await p") (simp_all add: settled_ok_def thenable_def)

lemma unmarked_entry_ok: "\<not> resolves_to_marker p \<Longrightarrow> entry_ok p"
  by (auto simp: resolves_to_marker_def entry_ok_def settled_ok_def await_not_thenable
      split: settle.splits)

lemma those_fulfilment_set:
  "those (map fulfilment ps) = Some rs \<Longrightarrow> \<forall>v\<in>set rs. \<exists>p\<in>set ps. await p = Fulfills v"
proof (induction ps arbitrary: rs)
  case Nil
  then show ?case by simp
next
  case (Cons p ps)
  from Cons.prems obtain x z where fx: "fulfilment p = Some x"
    and z: "those (map fulfilment ps) = Some z" and rs: "rs = x # z"
    by (auto split: option.splits)
  from fx have x: "await p = Fulfills x"
    by (auto simp: fulfilment_def split: settle.splits)
  show ?case
    using Cons.IH[OF z] x rs by auto
qed

lemma all_Fulfills:
  "all promises label = Fulfills v \<Longrightarrow>
     \<exists>rs. v = Arr rs \<and> those (map fulfilment (elems promises)) = Some rs"
  by (auto simp: all_def split: option.splits)

lemma all_settled_ok:
  assumes "all promises label = Fulfills v" and "\<forall>p\<in>set (elems promises). entry_ok p"
  shows "\<forall>x\<in>set (elems v). settled_ok x"
proof -
  obtain rs where rs: "v = Arr rs" "those (map fulfilment (elems promises)) = Some rs"
    using all_Fulfills[OF assms(1)] by blast
  show ?thesis
  proof
    fix x assume "x \<in> set (elems v)"
    then obtain p where "p \<in> set (elems promises)" "await p = Fulfills x"
      using those_fulfilment_set[OF rs(2)] rs(1) by auto
    then show "settled_ok x"
      using assms(2) by (auto simp: entry_ok_def)
  qed
qed

lemma filter_loop_hasPromises:
  "filter_loop f rs acc True s cs = (Return (out, hp'), s', cs') \<Longrightarrow> hp'"
proof (induction rs arbitrary: acc s cs)
  case Nil
  then show ?case by simp
next
  case (Cons r rs)
  then show ?case
    by (auto split: if_splits prod.splits outcome.splits)
qed

lemma filter_loop_entry_ok:
  assumes "\<forall>v\<in>set rs. settled_ok v" and "\<forall>a\<in>set acc. entry_ok a"
    and "filter_loop f rs acc hp s cs = (Return (out, hp'), s', cs')"
  shows "\<forall>a\<in>set out. entry_ok a"
  using assms
proof (induction rs arbitrary: acc hp s cs)
  case Nil
  then show ?case by simp
next
  case (Cons r rs)
  have r: "settled_ok r" and rs: "\<forall>v\<in>set rs. settled_ok v"
    using Cons.prems(1) by simp_all
  show ?case
  proof (cases "instanceof_FilterResult r")
    case True
    then have 0: "\<forall>a\<in>set (acc @ [fr_value r]). entry_ok a"
      using r Cons.prems(2) by (simp add: settled_ok_def plain_entry_ok)
    show ?thesis
      using Cons.prems(3) True Cons.IH[OF rs 0] Cons.IH[OF rs Cons.prems(2)]
      by (simp split: if_splits)
  next
    case False
    then have pr: "plain r"
      using r by (simp add: settled_ok_def plain_def)
    obtain res s1 where call: "f r s = (res, s1)"
      by (cases "f r s")
    show ?thesis
    proof (cases res)
      case (Throw e)
      then show ?thesis
        using Cons.prems(3) False call by simp
    next
      case (Return fr)
      have 1: "\<forall>a\<in>set (acc @ [fromFilterPromise fr r]). entry_ok a"
        and 2: "\<forall>a\<in>set (acc @ [r]). entry_ok a"
        using Cons.prems(2) pr by (simp_all add: marker_entry_ok plain_entry_ok)
      show ?thesis
        using Cons.prems(3) False call Return
          Cons.IH[OF rs 1] Cons.IH[OF rs 2] Cons.IH[OF rs Cons.prems(2)]
        by (simp split: if_splits)
    qed
  qed
qed

lemma filter_loop_plain:
  assumes "\<forall>v\<in>set rs. settled_ok v" and "\<forall>a\<in>set acc. plain a"
    and "filter_loop f rs acc hp s cs = (Return (out, False), s', cs')"
  shows "\<forall>a\<in>set out. plain a"
  using assms
proof (induction rs arbitrary: acc hp s cs)
  case Nil
  then show ?case by simp
next
  case (Cons r rs)
  have r: "settled_ok r" and rs: "\<forall>v\<in>set rs. settled_ok v"
    using Cons.prems(1) by simp_all
  show ?case
  proof (cases "instanceof_FilterResult r")
    case True
    then have 0: "\<forall>a\<in>set (acc @ [fr_value r]). plain a"
      using r Cons.prems(2) by (simp add: settled_ok_def)
    show ?thesis
      using Cons.prems(3) True Cons.IH[OF rs 0] Cons.IH[OF rs Cons.prems(2)]
      by (simp split: if_splits)
  next
    case False
    then have pr: "plain r"
      using r by (simp add: settled_ok_def plain_def)
    obtain res s1 where call: "f r s = (res, s1)"
      by (cases "f r s")
    show ?thesis
    proof (cases res)
      case (Throw e)
      then show ?thesis
        using Cons.prems(3) False call by simp
    next
      case (Return fr)
      have 2: "\<forall>a\<in>set (acc @ [r]). plain a"
        using Cons.prems(2) pr by simp
      show ?thesis
        using Cons.prems(3) False call Return
          Cons.IH[OF rs 2] Cons.IH[OF rs Cons.prems(2)]
        by (auto split: if_splits dest: filter_loop_hasPromises)
    qed
  qed
qed

lemma filter_rsvp_entry_ok:
  "filter_rsvp promises fn label s = Some r \<Longrightarrow>
    (\<forall>p\<in>set (elems promises). entry_ok p) \<longrightarrow>
    (\<forall>v. outcome r = Inr (Fulfills v) \<longrightarrow> isArray v \<and> (\<forall>x\<in>set (elems v). plain x))"
proof (rule filter_rsvp.raw_induct
    [where P = "\<lambda>promises fn label s r. (\<forall>p\<in>set (elems promises). entry_ok p) \<longrightarrow>
       (\<forall>v. outcome r = Inr (Fulfills v) \<longrightarrow> isArray v \<and> (\<forall>x\<in>set (elems v). plain x))"], goal_cases)
  case (1 rec promises filterFn label s r)
  note IH = "1"(2) and body = "1"(3)
  show ?case
  proof (intro impI allI)
    fix v
    assume ok: "\<forall>p\<in>set (elems promises). entry_ok p" and out: "outcome r = Inr (Fulfills v)"
    from body out obtain res where joined: "all promises label = Fulfills res"
      by (auto split: if_splits settle.splits)
    have sok: "\<forall>x\<in>set (elems res). settled_ok x"
      using all_settled_ok[OF joined ok] .
    from body out joined obtain fr hp s' cs
      where loop: "filter_loop (call filterFn) (elems res) [] False s [] = (Return (fr, hp), s', cs)"
      by (auto split: if_splits prod.splits outcome.splits)
    show "isArray v \<and> (\<forall>x\<in>set (elems v). plain x)"
    proof (cases hp)
      case False
      then have v: "v = Arr fr"
        using body out joined loop by (auto split: if_splits)
      have loop': "filter_loop (call filterFn) (elems res) [] False s [] = (Return (fr, False), s', cs)"
        using loop False by simp
      have "\<forall>a\<in>set fr. plain a"
        by (rule filter_loop_plain[OF sok _ loop']) simp
      then show ?thesis
        using v by simp
    next
      case True
      then obtain r' where r': "rec (Arr fr) filterFn label s' = Some r'"
        and "outcome r = (case outcome r' of Inl e \<Rightarrow> Inr (Rejects e) | Inr st \<Rightarrow> Inr st)"
        using body joined loop out by (auto split: if_splits Option.bind_splits)
      then have "outcome r' = Inr (Fulfills v)"
        using out by (auto split: sum.splits)
      moreover have "\<forall>p\<in>set (elems (Arr fr)). entry_ok p"
        using filter_loop_entry_ok[OF sok _ loop] by simp
      ultimately show ?thesis
        using IH[OF r'] by blast
    qed
  qed
qed

text \<open>
  C8: when no entry of the input is or fulfills with an instance of \<open>FilterResult\<close>, the
  value with which the future returned by \<open>filter\<close> fulfills is an array that contains
  no instance of \<open>FilterResult\<close>, whatever the predicate does and however many passes
  were needed.
\<close>

theorem filter_result_has_no_marker:
  assumes "\<forall>p\<in>set ps. \<not> resolves_to_marker p"
    and "filter_rsvp (Arr ps) fn label s = Some r"
    and "outcome r = Inr (Fulfills v)"
  shows "isArray v \<and> (\<forall>x\<in>set (elems v). \<not> instanceof_FilterResult x)"
  using filter_rsvp_entry_ok[OF assms(2)] assms(1,3)
  by (auto simp: unmarked_entry_ok plain_def)

lemma filter_example_run:
  "filter_rsvp (Arr [Str ''alice'', Thenable 2 (Fulfills (Str ''bob''))])
      (Fun (\<lambda>x s. (Return (Thenable (5 + s) (Fulfills (Bool (x = Str ''alice'')))), Suc s)))
      Undefined 0 =
     Some \<lparr>outcome = Inr (Fulfills (Arr [Str ''alice''])), fnState = 2,
           calls = [Str ''alice'', Str ''bob''], recursions = 1\<rparr>"
proof -
  let ?f = "\<lambda>x s. (Return (Thenable (5 + s) (Fulfills (Bool (x = Str ''alice'')))), Suc s)"
  have "filter_rsvp
          (Arr [fromFilterPromise (Thenable 5 (Fulfills (Bool True))) (Str ''alice''),
                fromFilterPromise (Thenable 6 (Fulfills (Bool False))) (Str ''bob'')])
          (Fun ?f) Undefined (Suc (Suc 0)) =
        Some \<lparr>outcome = Inr (Fulfills (Arr [Str ''alice''])), fnState = 2, calls = [],
              recursions = 0\<rparr>"
    by (subst filter_rsvp.simps) (simp add: all_def fulfilment_def fromFilterPromise_await)
  then show ?thesis
    by (subst filter_rsvp.simps) (simp add: all_def fulfilment_def)
qed

theorem filter_result_has_no_marker_witness:
  "filter_rsvp (Arr [Str ''alice'', Thenable 2 (Fulfills (Str ''bob''))])
      (Fun (\<lambda>x s. (Return (Thenable (5 + s) (Fulfills (Bool (x = Str ''alice'')))), Suc s)))
      Undefined 0 =
     Some \<lparr>outcome = Inr (Fulfills (Arr [Str ''alice''])), fnState = 2,
           calls = [Str ''alice'', Str ''bob''], recursions = 1\<rparr>
   \<and> isArray (Arr [Str ''alice'']) \<and> \<not> instanceof_FilterResult (Str ''alice'')"
proof -
  have h: "\<forall>p\<in>set [Str ''alice'', Thenable 2 (Fulfills (Str ''bob''))]. \<not> resolves_to_marker p"
    by (simp add: resolves_to_marker_def)
  show ?thesis
    using filter_result_has_no_marker [OF h filter_example_run] filter_example_run by simp
qed

subsection \<open>Termination of the passes of \<open>filter\<close>\<close>

lemma pending_marker_fromFilterPromise: "pending_marker (fromFilterPromise p x)"
  unfolding pending_marker_def fromFilterPromise_await
  by (cases "await p") (simp_all add: thenable_def fromFilterPromise_def then_rsvp_def)

lemma filter_loop_kept:
  assumes "pure_answers f" and "\<forall>v\<in>set rs. plain v"
    and "\<forall>a\<in>set acc. plain a \<and> keeps f a \<or> pending_marker a"
    and "filter_loop f rs acc hp s cs = (Return (out, hp'), s', cs')"
  shows "\<forall>a\<in>set out. plain a \<and> keeps f a \<or> pending_marker a"
  using assms(2-)
proof (induction rs arbitrary: acc hp s cs)
  case Nil
  then show ?case by simp
next
  case (Cons r rs)
  have pr: "plain r" and rs: "\<forall>v\<in>set rs. plain v"
    using Cons.prems(1) by simp_all
  then have nfr: "\<not> instanceof_FilterResult r"
    by (simp add: plain_def)
  obtain res s1 where call: "f r s = (res, s1)"
    by (cases "f r s")
  show ?case
  proof (cases res)
    case (Throw e)
    then show ?thesis
      using Cons.prems(3) nfr call by simp
  next
    case (Return fr)
    have same: "fst (f r s0) = Return fr" for s0
      using assms(1) call Return by (metis pure_answers_def fst_conv)
    have 1: "\<forall>a\<in>set (acc @ [fromFilterPromise fr r]). plain a \<and> keeps f a \<or> pending_marker a"
      using Cons.prems(2) by (simp add: pending_marker_fromFilterPromise)
    have 2: "\<forall>a\<in>set (acc @ [r]). plain a \<and> keeps f a \<or> pending_marker a"
      if "truthy fr" "\<not> (typeof fr = ''object'' \<and> callable_then fr = Some True)"
      using Cons.prems(2) pr that same by (simp add: keeps_def)
    show ?thesis
    proof (cases "truthy fr")
      case False
      then show ?thesis
        using Cons.prems(3) nfr call Return Cons.IH[OF rs Cons.prems(2)] by simp
    next
      case True
      show ?thesis
      proof (cases "typeof fr = ''object'' \<and> callable_then fr = Some True")
        case True
        then show ?thesis
          using Cons.prems(3) nfr call Return \<open>truthy fr\<close> Cons.IH[OF rs 1] by simp
      next
        case False
        then have nc: "(typeof fr = ''object'' \<and> callable_then fr = Some True) = False"
          by simp
        show ?thesis
          using Cons.prems(3) nfr call Return \<open>truthy fr\<close> Cons.IH[OF rs 2[OF \<open>truthy fr\<close> False]]
          by (simp add: nc)
      qed
    qed
  qed
qed

lemma filter_loop_settles:
  assumes "\<forall>v\<in>set rs. instanceof_FilterResult v \<or> keeps f v"
  shows "\<exists>out s' cs'. filter_loop f rs acc False s cs = (Return (out, False), s', cs')"
  using assms
proof (induction rs arbitrary: acc s cs)
  case Nil
  then show ?case by simp
next
  case (Cons r rs)
  have rs: "\<forall>v\<in>set rs. instanceof_FilterResult v \<or> keeps f v"
    using Cons.prems by simp
  show ?case
  proof (cases "instanceof_FilterResult r")
    case True
    then show ?thesis
      using Cons.IH[OF rs] by simp
  next
    case False
    then have k: "keeps f r"
      using Cons.prems by simp
    obtain res s1 where call: "f r s = (res, s1)"
      by (cases "f r s")
    from k have "case fst (f r s) of
        Return v \<Rightarrow> truthy v \<and> \<not> (typeof v = ''object'' \<and> callable_then v = Some True)
      | Throw e \<Rightarrow> False"
      unfolding keeps_def by blast
    then obtain v where v: "res = Return v" "truthy v"
      "\<not> (typeof v = ''object'' \<and> callable_then v = Some True)"
      using call by (cases res) auto
    have nc: "(typeof v = ''object'' \<and> callable_then v = Some True) = False"
      using v(3) by simp
    show ?thesis
      using False call v(1,2) Cons.IH[OF rs, of "acc @ [r]" s1 "cs @ [r]"]
      by (simp add: nc)
  qed
qed

lemma second_pass_settles:
  assumes "\<forall>a\<in>set out. plain a \<and> keeps f a \<or> pending_marker a"
  shows "\<exists>r. filter_rsvp (Arr out) (Fun f) label s = Some r \<and> recursions r = 0"
proof (cases "all (Arr out) label")
  case (Fulfills res)
  then obtain rs where res: "res = Arr rs" and rs: "those (map fulfilment (elems (Arr out))) = Some rs"
    using all_Fulfills by blast
  have "\<forall>v\<in>set rs. instanceof_FilterResult v \<or> keeps f v"
  proof
    fix v assume "v \<in> set rs"
    then obtain a where a: "a \<in> set out" "await a = Fulfills v"
      using those_fulfilment_set[OF rs] by auto
    then have "plain a \<and> keeps f a \<or> pending_marker a"
      using assms by blast
    then show "instanceof_FilterResult v \<or> keeps f v"
    proof
      assume "plain a \<and> keeps f a"
      then show ?thesis
        using a(2) by (simp add: plain_def await_plain)
    next
      assume "pending_marker a"
      then show ?thesis
        using a(2) by (simp add: pending_marker_def)
    qed
  qed
  from filter_loop_settles[OF this, of "[]" s "[]"] obtain out2 s' cs' where
    "filter_loop f rs [] False s [] = (Return (out2, False), s', cs')"
    by blast
  then show ?thesis
    using Fulfills res by (subst filter_rsvp.simps) simp
next
  case (Rejects e)
  then show ?thesis
    by (subst filter_rsvp.simps) simp
next
  case Never
  then show ?thesis
    by (subst filter_rsvp.simps) simp
qed

lemma filter_loop_markers:
  "\<forall>m\<in>set ms. instanceof_FilterResult m \<Longrightarrow>
     filter_loop f ms acc hp s cs =
       (Return (acc @ map fr_value (filter fr_returnedSuccessfully ms), hp), s, cs)"
  by (induction ms arbitrary: acc) auto

lemma filter_pure_terminates:
  assumes "pure_answers f" and "\<forall>p\<in>set ps. \<not> resolves_to_marker p"
  shows "\<exists>r. filter_rsvp (Arr ps) (Fun f) label s = Some r \<and> recursions r \<le> 1"
proof (cases "all (Arr ps) label")
  case (Fulfills res)
  then obtain rs where res: "res = Arr rs" and rs: "those (map fulfilment (elems (Arr ps))) = Some rs"
    using all_Fulfills by blast
  have pl: "\<forall>v\<in>set rs. plain v"
  proof
    fix v assume "v \<in> set rs"
    then obtain p where "p \<in> set ps" "await p = Fulfills v"
      using those_fulfilment_set[OF rs] by auto
    then show "plain v"
      using assms(2) await_not_thenable by (auto simp: plain_def resolves_to_marker_def)
  qed
  obtain res1 s' cs where loop: "filter_loop f rs [] False s [] = (res1, s', cs)"
    by (cases "filter_loop f rs [] False s []")
  show ?thesis
  proof (cases res1)
    case (Throw e)
    then show ?thesis
      using Fulfills res loop by (subst filter_rsvp.simps) simp
  next
    case (Return pr)
    obtain out hp where pr: "pr = (out, hp)"
      by (cases pr)
    show ?thesis
    proof (cases hp)
      case False
      then show ?thesis
        using Fulfills res loop Return pr by (subst filter_rsvp.simps) simp
    next
      case True
      have "\<forall>a\<in>set out. plain a \<and> keeps f a \<or> pending_marker a"
        by (rule filter_loop_kept[OF assms(1) pl _ loop[unfolded Return pr]]) simp
      from second_pass_settles[OF this, of label s']
      obtain r' where "filter_rsvp (Arr out) (Fun f) label s' = Some r'" "recursions r' = 0"
        by blast
      then show ?thesis
        using Fulfills res loop Return pr True by (subst filter_rsvp.simps) simp
    qed
  qed
next
  case (Rejects e)
  then show ?thesis
    by (subst filter_rsvp.simps) simp
next
  case Never
  then show ?thesis
    by (subst filter_rsvp.simps) simp
qed

text \<open>
  C2, amended: for an input without \<open>FilterResult\<close> entries and a predicate that answers
  independently of its state, \<open>filter\<close> returns after at most one call of itself; and in
  any pass the markers are resolved in the marker branch: the predicate is not invoked
  on them, its state and \<open>hasPromises\<close> stay as they are. The items kept synchronously
  by the first pass are given to the predicate again by the second pass, which is why the
  predicate has to answer them as before.
\<close>

theorem filter_pure_predicate_terminates:
  assumes "pure_answers f" and "\<forall>p\<in>set ps. \<not> resolves_to_marker p"
  shows "(\<exists>r. filter_rsvp (Arr ps) (Fun f) label s = Some r \<and> recursions r \<le> 1)
       \<and> ((\<forall>m\<in>set ms. instanceof_FilterResult m) \<longrightarrow>
            filter_loop f ms acc hp s' cs =
              (Return (acc @ map fr_value (filter fr_returnedSuccessfully ms), hp), s', cs))"
proof (intro conjI impI)
  show "\<exists>r. filter_rsvp (Arr ps) (Fun f) label s = Some r \<and> recursions r \<le> 1"
    by (rule filter_pure_terminates[OF assms])
next
  assume "\<forall>m\<in>set ms. instanceof_FilterResult m"
  then show "filter_loop f ms acc hp s' cs =
      (Return (acc @ map fr_value (filter fr_returnedSuccessfully ms), hp), s', cs)"
    by (rule filter_loop_markers)
qed

theorem filter_pure_predicate_terminates_witness:
  "(\<exists>r. filter_rsvp (Arr [Num 1, Num 2])
          (Fun (\<lambda>x n. (Return (if x = Num 2 then Thenable 0 (Fulfills (Bool True)) else Bool True),
                        Suc n)))
          Undefined (0::nat) = Some r
        \<and> recursions r \<le> 1)
   \<and> filter_loop
         (\<lambda>x n. (Return (if x = Num 2 then Thenable 0 (Fulfills (Bool True)) else Bool True), Suc n))
         [FilterResult (Num 7) True, FilterResult (Num 8) False] [] False (5::nat) [] =
       (Return ([Num 7], False), 5, [])"
proof -
  let ?f = "\<lambda>x n. (Return (if x = Num 2 then Thenable 0 (Fulfills (Bool True)) else Bool True),
                     Suc (n::nat))"
  have a: "pure_answers ?f"
    by (simp add: pure_answers_def)
  have b: "\<forall>p\<in>set [Num 1, Num 2]. \<not> resolves_to_marker p"
    by (simp add: resolves_to_marker_def)
  have c: "\<forall>m\<in>set [FilterResult (Num 7) True, FilterResult (Num 8) False]. instanceof_FilterResult m"
    by simp
  note w = filter_pure_predicate_terminates
    [OF a b, of Undefined 0 "[FilterResult (Num 7) True, FilterResult (Num 8) False]" "[]" False 5 "[]"]
  show ?thesis
    using w[THEN conjunct1] w[THEN conjunct2, THEN mp, OF c] by simp
qed

lemma flaky_no_result:
  "filter_rsvp p fn label s = Some y \<Longrightarrow> \<not> (fn = Fun flaky \<and> 0 < s \<and> flaky_pass p)"
proof (rule filter_rsvp.raw_induct
    [where P = "\<lambda>p fn label s y. \<not> (fn = Fun flaky \<and> 0 < s \<and> flaky_pass p)"], goal_cases)
  case (1 rec promises filterFn label s r)
  note IH = "1"(2) and body = "1"(3)
  show "\<not> (filterFn = Fun flaky \<and> 0 < s \<and> flaky_pass promises)"
  proof
    assume h: "filterFn = Fun flaky \<and> 0 < s \<and> flaky_pass promises"
    then have "\<exists>p' y'. flaky_pass p' \<and> rec p' (Fun flaky) label (Suc s) = Some y'"
      using body
      by (auto simp: flaky_pass_def all_def fulfilment_def fromFilterPromise_await flaky_def
          split: Option.bind_splits)
    then show False
      using IH by blast
  qed
qed

lemma flaky_diverges:
  "0 < s \<Longrightarrow> flaky_pass p \<Longrightarrow> filter_rsvp p (Fun flaky) label s = None"
  using flaky_no_result [of p "Fun flaky" label s] by (cases "filter_rsvp p (Fun flaky) label s") auto

text \<open>
  C2 as stated fails: on \<open>[1, 2]\<close> the predicate \<open>flaky\<close> keeps \<open>1\<close> synchronously and
  answers \<open>2\<close> with a future; the next pass asks it about \<open>1\<close> again and gets a future,
  the pass after that about \<open>2\<close>, and so on. Every pass produces a new marker, \<open>filter\<close>
  calls itself for ever and the returned future never settles.
\<close>

theorem filter_flaky_predicate_never_settles:
  "filter_rsvp (Arr [Num 1, Num 2]) (Fun flaky) Undefined 0 = None"
proof -
  have "filter_rsvp (Arr [Num 1, fromFilterPromise (Thenable 0 (Fulfills (Bool True))) (Num 2)])
          (Fun flaky) Undefined (Suc (Suc 0)) = None"
    by (rule flaky_diverges) (simp_all add: flaky_pass_def)
  then show ?thesis
    by (subst filter_rsvp.simps) (simp add: all_def fulfilment_def flaky_def)
qed

section \<open>Properties of \<open>hash\<close>\<close>

subsection \<open>The shared state of the handlers\<close>

lemma awaited_plain: "\<not> thenable v \<Longrightarrow> awaited v = v"
  by (simp add: awaited_def await_plain)

lemma results_resolveAll [simp]:
  "results (resolveAll k v st) = AList.update k v (results st)"
  by (simp add: resolveAll_def resolve_def Let_def)

lemma remaining_resolveAll [simp]: "remaining (resolveAll k v st) = remaining st - 1"
  by (simp add: resolveAll_def resolve_def Let_def)

lemma attached_resolveAll [simp]: "attached (resolveAll k v st) = attached st"
  by (simp add: resolveAll_def resolve_def Let_def)

lemma settled_resolveAll:
  "settled (resolveAll k v st) =
     (if settled st = None \<and> remaining st = 1
      then Some (Fulfills (Obj (AList.update k v (results st)))) else settled st)"
  by (simp add: resolveAll_def resolve_def Let_def)

lemma resolveAll_attached_update:
  "resolveAll k v (st\<lparr>attached := a\<rparr>) = (resolveAll k v st)\<lparr>attached := a\<rparr>"
  by (simp add: resolveAll_def resolve_def Let_def)

lemma fold_resolveAll_attached_update:
  "fold (\<lambda>k. resolveAll k (g k)) ks (st\<lparr>attached := a\<rparr>) =
     (fold (\<lambda>k. resolveAll k (g k)) ks st)\<lparr>attached := a\<rparr>"
  by (induction ks arbitrary: st) (simp_all add: resolveAll_attached_update)

lemma fold_resolveAll_fields:
  "results (fold (\<lambda>k. resolveAll k (g k)) ks st) = fold (\<lambda>k. AList.update k (g k)) ks (results st)"
  "remaining (fold (\<lambda>k. resolveAll k (g k)) ks st) = remaining st - int (length ks)"
  "attached (fold (\<lambda>k. resolveAll k (g k)) ks st) = attached st"
  by (induction ks arbitrary: st) simp_all

lemma fold_resolveAll_settled:
  assumes "settled st = None" and "int (length ks) \<le> remaining st"
  shows "settled (fold (\<lambda>k. resolveAll k (g k)) ks st) =
     (if ks \<noteq> [] \<and> remaining st = int (length ks)
      then Some (Fulfills (Obj (fold (\<lambda>k. AList.update k (g k)) ks (results st)))) else None)"
  using assms
proof (induction ks arbitrary: st)
  case Nil
  then show ?case by simp
next
  case (Cons k ks)
  show ?case
  proof (cases "remaining st = 1")
    case True
    then have "ks = []"
      using Cons.prems(2) by simp
    then show ?thesis
      using True Cons.prems(1) by (simp add: settled_resolveAll)
  next
    case False
    then have "settled (resolveAll k (g k) st) = None"
      using Cons.prems(1) by (simp add: settled_resolveAll)
    moreover have "int (length ks) \<le> remaining (resolveAll k (g k) st)"
      using Cons.prems(2) by simp
    ultimately show ?thesis
      using Cons.IH[of "resolveAll k (g k) st"] False by auto
  qed
qed

lemma settled_stays:
  "settled st = Some x \<Longrightarrow> settled (resolveAll k v st) = Some x"
  "settled st = Some x \<Longrightarrow> settled (reject r st) = Some x"
  by (simp_all add: settled_resolveAll reject_def)

lemma hash_handlers_settled_stays:
  "settled st = Some x \<Longrightarrow> settled (hash_handlers object ks st) = Some x"
  by (induction ks arbitrary: st) (auto simp: resolver_def settled_stays split: settle.splits)

lemma hash_handlers_append:
  "hash_handlers object (xs @ ys) st = hash_handlers object ys (hash_handlers object xs st)"
  by (induction xs arbitrary: st) simp_all

lemma truthy_callable_then: "truthy v \<Longrightarrow> callable_then v \<noteq> None"
  by (cases v) simp_all

lemma hash_loop_fold:
  "hash_loop object props st =
     Return ((fold (\<lambda>k. resolveAll k (get object k))
                (filter (\<lambda>k. \<not> thenable (get object k)) props) st)
             \<lparr>attached := attached st @ filter (\<lambda>k. thenable (get object k)) props\<rparr>)"
proof (induction props arbitrary: st)
  case Nil
  then show ?case by simp
next
  case (Cons k props)
  show ?case
  proof (cases "thenable (get object k)")
    case True
    then show ?thesis
      using Cons.IH[of "st\<lparr>attached := attached st @ [k]\<rparr>"]
      by (simp add: thenable_def fold_resolveAll_attached_update fold_resolveAll_fields)
  next
    case False
    then have "hash_loop object (k # props) st =
        hash_loop object props (resolveAll k (get object k) st)"
      using truthy_callable_then[of "get object k"]
      by (auto simp: thenable_def Let_def split: option.splits bool.splits)
    then show ?thesis
      using False Cons.IH[of "resolveAll k (get object k) st"] by simp
  qed
qed

lemma hash_handlers_fold:
  assumes "\<forall>k\<in>set ks. \<exists>v. await (get object k) = Fulfills v"
  shows "hash_handlers object ks st = fold (\<lambda>k. resolveAll k (awaited (get object k))) ks st"
  using assms
  by (induction ks arbitrary: st) (auto simp: resolver_def awaited_def)

lemma fold_update_map_of:
  "map_of (fold (\<lambda>k. AList.update k (g k)) ks al) k =
     (if k \<in> set ks then Some (g k) else map_of al k)"
  by (induction ks arbitrary: al) (auto simp: update_conv')

lemma fold_update_keys:
  "fst ` set (fold (\<lambda>k. AList.update k (g k)) ks al) = set ks \<union> fst ` set al"
  by (induction ks arbitrary: al) (auto simp: dom_update)

lemma fold_update_distinct:
  "distinct (map fst al) \<Longrightarrow> distinct (map fst (fold (\<lambda>k. AList.update k (g k)) ks al))"
  by (induction ks arbitrary: al) (auto simp: distinct_update)

lemma hash_executor_nonempty:
  assumes "keysOf object \<noteq> []"
  shows "hash_executor object (hash_init object) =
     Return ((fold (\<lambda>k. resolveAll k (get object k))
                (filter (\<lambda>k. \<not> thenable (get object k)) (keysOf object)) (hash_init object))
             \<lparr>attached := filter (\<lambda>k. thenable (get object k)) (keysOf object)\<rparr>)"
  using assms by (simp add: hash_executor_def hash_loop_fold) (simp add: hash_init_def)

lemma hash_executor_empty:
  assumes "keysOf object = []"
  shows "hash_executor object (hash_init object) = Return (resolve (Obj []) (hash_init object))"
  using assms by (simp add: hash_executor_def hash_init_def)

lemma set_settle_order [simp]: "set (settle_order object ks) = set ks"
  by (simp add: settle_order_def)

lemma length_settle_order [simp]: "length (settle_order object ks) = length ks"
  by (simp add: settle_order_def)

lemma length_plain_thenable:
  "length (filter (\<lambda>k. \<not> thenable (get object k)) ks) + length (filter (\<lambda>k. thenable (get object k)) ks)
     = length ks"
  by (induction ks) auto

lemma hash_fulfils:
  assumes "\<forall>k\<in>set (keysOf object). \<exists>v. await (get object k) = Fulfills v"
  shows "hash object label =
     Fulfills (Obj (fold (\<lambda>k. AList.update k (awaited (get object k)))
        (filter (\<lambda>k. \<not> thenable (get object k)) (keysOf object)
         @ settle_order object (filter (\<lambda>k. thenable (get object k)) (keysOf object))) []))"
proof (cases "keysOf object = []")
  case True
  show ?thesis
    unfolding hash_def hash_executor_empty[OF True]
    using True by (simp add: resolve_def hash_init_def settle_order_def)
next
  case False
  let ?pl = "filter (\<lambda>k. \<not> thenable (get object k)) (keysOf object)"
  let ?th = "filter (\<lambda>k. thenable (get object k)) (keysOf object)"
  let ?S = "settle_order object ?th"
  let ?st0 = "hash_init object"
  let ?g = "\<lambda>k. awaited (get object k)"
  have pl: "fold (\<lambda>k. resolveAll k (get object k)) ?pl ?st0 = fold (\<lambda>k. resolveAll k (?g k)) ?pl ?st0"
    by (rule fold_cong) (simp_all add: awaited_plain)
  have S: "\<forall>k\<in>set ?S. \<exists>v. await (get object k) = Fulfills v"
    using assms by simp
  have "hash_handlers object ?S ((fold (\<lambda>k. resolveAll k (?g k)) ?pl ?st0)\<lparr>attached := ?th\<rparr>)
      = (fold (\<lambda>k. resolveAll k (?g k)) (?pl @ ?S) ?st0)\<lparr>attached := ?th\<rparr>"
    by (simp add: hash_handlers_fold[OF S] fold_resolveAll_attached_update)
  moreover have "settled (fold (\<lambda>k. resolveAll k (?g k)) (?pl @ ?S) ?st0) =
      Some (Fulfills (Obj (fold (\<lambda>k. AList.update k (?g k)) (?pl @ ?S) (results ?st0))))"
  proof -
    have len: "int (length (?pl @ ?S)) = remaining ?st0"
      using length_plain_thenable[of object "keysOf object"] by (simp add: hash_init_def)
    have "length (?pl @ ?S) = length (keysOf object)"
      using length_plain_thenable[of object "keysOf object"] by simp
    moreover have "length (keysOf object) \<noteq> 0"
      using False by simp
    ultimately have ne: "?pl @ ?S \<noteq> []"
      by (metis list.size(3))
    show ?thesis
      using fold_resolveAll_settled[of ?st0 "?pl @ ?S" ?g] len ne
      by (simp add: hash_init_def)
  qed
  moreover have "results ?st0 = []"
    by (simp add: hash_init_def)
  ultimately show ?thesis
    unfolding hash_def hash_executor_nonempty[OF False] pl by simp
qed

lemma hash_handlers_no_reject:
  assumes "\<forall>k\<in>set ks. \<forall>r. await (get object k) \<noteq> Rejects r"
    and "settled st = None" and "int (length ks) < remaining st"
  shows "settled (hash_handlers object ks st) = None"
  using assms
proof (induction ks arbitrary: st)
  case Nil
  then show ?case by simp
next
  case (Cons k ks)
  show ?case
  proof (cases "await (get object k)")
    case (Fulfills v)
    have "settled (resolveAll k v st) = None" "int (length ks) < remaining (resolveAll k v st)"
      using Cons.prems(2,3) by (simp_all add: settled_resolveAll)
    then show ?thesis
      using Cons.IH[of "resolveAll k v st"] Cons.prems(1) Fulfills by (simp add: resolver_def)
  next
    case (Rejects r)
    then show ?thesis
      using Cons.prems(1) by simp
  next
    case Never
    then show ?thesis
      using Cons.IH[of st] Cons.prems by simp
  qed
qed

lemma hash_fails_first:
  assumes "fails_first (map (get object) (keysOf object)) r"
  shows "hash object label = Rejects r"
proof -
  let ?tm = "\<lambda>k. settle_time (get object k)"
  let ?pl = "filter (\<lambda>k. \<not> thenable (get object k)) (keysOf object)"
  let ?th = "filter (\<lambda>k. thenable (get object k)) (keysOf object)"
  let ?S = "settle_order object ?th"
  let ?st0 = "hash_init object"
  let ?st1 = "(fold (\<lambda>k. resolveAll k (get object k)) ?pl ?st0)\<lparr>attached := ?th\<rparr>"
  from assms obtain k0 where k0: "k0 \<in> set (keysOf object)" "await (get object k0) = Rejects r"
    and first: "\<And>k r'. k \<in> set (keysOf object) \<Longrightarrow> await (get object k) = Rejects r' \<Longrightarrow>
        get object k = get object k0 \<or> ?tm k0 < ?tm k"
    unfolding fails_first_def by (fastforce split: settle.splits)
  have k0S: "k0 \<in> set ?S"
    using k0 rejects_thenable by simp
  then have "\<exists>k\<in>set ?S. \<exists>r'. await (get object k) = Rejects r'"
    using k0(2) by blast
  then obtain pre k1 post where split: "?S = pre @ k1 # post"
    and k1: "\<exists>r'. await (get object k1) = Rejects r'"
    and pre: "\<forall>k\<in>set pre. \<not> (\<exists>r'. await (get object k) = Rejects r')"
    using split_list_first_prop[of ?S "\<lambda>k. \<exists>r'. await (get object k) = Rejects r'"] by blast
  from k1 obtain r1 where r1: "await (get object k1) = Rejects r1"
    by blast
  have k1keys: "k1 \<in> set (keysOf object)"
    using split set_settle_order[of object ?th] by auto
  have sorted: "sorted (map ?tm ?S)"
    by (simp add: settle_order_def)
  have "r1 = r"
  proof (rule ccontr)
    assume neq: "r1 \<noteq> r"
    then have "get object k1 \<noteq> get object k0"
      using r1 k0(2) by auto
    then have lt: "?tm k0 < ?tm k1"
      using first[OF k1keys r1] by simp
    have "k0 \<notin> set pre"
      using pre k0(2) by blast
    moreover have "k0 \<noteq> k1"
      using lt by auto
    ultimately have "k0 \<in> set post"
      using k0S split by simp
    then have "?tm k1 \<le> ?tm k0"
      using sorted split by (simp add: sorted_append)
    then show False
      using lt by simp
  qed
  have keys: "keysOf object \<noteq> []"
    using k0(1) by auto
  have len: "int (length ?pl) + int (length ?th) = remaining ?st0"
    using length_plain_thenable[of object "keysOf object"] by (simp add: hash_init_def)
  have thne: "?th \<noteq> []"
    using k0(1) k0S by (auto simp: filter_empty_conv)
  have "0 < length ?th"
    using thne by simp
  then have less: "remaining ?st0 \<noteq> int (length ?pl)" "int (length ?pl) \<le> remaining ?st0"
    using len by linarith+
  have "settled (fold (\<lambda>k. resolveAll k (get object k)) ?pl ?st0) = None"
    using fold_resolveAll_settled[of ?st0 ?pl "\<lambda>k. get object k", OF _ less(2)] less(1)
    by (simp add: hash_init_def)
  then have settled1: "settled ?st1 = None"
    by simp
  have remaining1: "remaining ?st1 = int (length ?S)"
    using len by (simp add: fold_resolveAll_fields)
  have "settled (hash_handlers object pre ?st1) = None"
  proof (rule hash_handlers_no_reject)
    show "\<forall>k\<in>set pre. \<forall>r. await (get object k) \<noteq> Rejects r"
      using pre by blast
    show "settled ?st1 = None"
      by (rule settled1)
    show "int (length pre) < remaining ?st1"
      unfolding remaining1 split by simp
  qed
  then have "settled (hash_handlers object (pre @ [k1]) ?st1) = Some (Rejects r)"
    using r1 \<open>r1 = r\<close> by (simp add: hash_handlers_append reject_def)
  then have "settled (hash_handlers object ?S ?st1) = Some (Rejects r)"
    using hash_handlers_settled_stays[of _ "Rejects r" object post]
    by (simp add: split hash_handlers_append)
  then show ?thesis
    using keys by (simp add: hash_def hash_executor_nonempty)
qed

lemma get_fold_update:
  "k \<in> set ks \<Longrightarrow> get (fold (\<lambda>k. AList.update k (g k)) ks al) k = g k"
  by (simp add: get_def fold_update_map_of)

text \<open>
  C4: \<open>hash\<close> of the empty mapping fulfills with the empty mapping, and it does so
  at once: the initializer itself resolves the future. When every entry of
  a mapping is a plain value or a future that fulfills, \<open>hash\<close> fulfills with a mapping
  that has exactly the keys of the input, each once, and under each key the value the
  entry resolved to. The mapping does not depend on when the entries settle, nor on
  which of them are futures and which plain values: any mapping with the same keys whose
  entries resolve to the same values gives the same key-to-value association.
\<close>

theorem hash_fulfils_with_all_keys:
  assumes "\<forall>k\<in>set (keysOf object). \<exists>v. await (get object k) = Fulfills v"
  shows "hash [] label = Fulfills (Obj [])
       \<and> hash_executor [] (hash_init []) = Return (resolve (Obj []) (hash_init []))
       \<and> settled (resolve (Obj []) (hash_init [])) = Some (Fulfills (Obj []))
       \<and> (\<exists>res. hash object label = Fulfills (Obj res)
            \<and> set (map fst res) = set (keysOf object) \<and> distinct (map fst res)
            \<and> (\<forall>k\<in>set (keysOf object). await (get object k) = Fulfills (get res k))
            \<and> (\<forall>object' label'.
                  keysOf object' = keysOf object
                  \<and> (\<forall>k. await (get object' k) = await (get object k)) \<longrightarrow>
                  (\<exists>res'. hash object' label' = Fulfills (Obj res') \<and> map_of res' = map_of res)))"
proof (intro conjI)
  show "hash [] label = Fulfills (Obj [])"
    using hash_fulfils[of "[]" label] by (simp add: keysOf_def settle_order_def)
  show "hash_executor [] (hash_init []) = Return (resolve (Obj []) (hash_init []))"
    by (rule hash_executor_empty) (simp add: keysOf_def)
  show "settled (resolve (Obj []) (hash_init [])) = Some (Fulfills (Obj []))"
    by (simp add: resolve_def hash_init_def)
next
  let ?ks = "\<lambda>object. filter (\<lambda>k. \<not> thenable (get object k)) (keysOf object)
         @ settle_order object (filter (\<lambda>k. thenable (get object k)) (keysOf object))"
  let ?res = "\<lambda>object. fold (\<lambda>k. AList.update k (awaited (get object k))) (?ks object) []"
  have ks: "set (?ks object) = set (keysOf object)" for object
    by auto
  have "hash object label = Fulfills (Obj (?res object))"
    by (rule hash_fulfils[OF assms])
  moreover have "set (map fst (?res object)) = set (keysOf object)"
    using fold_update_keys[of "\<lambda>k. awaited (get object k)" "?ks object" "[]"] ks[of object] by simp
  moreover have "distinct (map fst (?res object))"
    by (rule fold_update_distinct) simp
  moreover have "\<forall>k\<in>set (keysOf object). await (get object k) = Fulfills (get (?res object) k)"
  proof
    fix k assume k: "k \<in> set (keysOf object)"
    then obtain v where v: "await (get object k) = Fulfills v"
      using assms by blast
    have "k \<in> set (?ks object)"
      using k ks[of object] by blast
    then have "get (?res object) k = awaited (get object k)"
      by (rule get_fold_update)
    then show "await (get object k) = Fulfills (get (?res object) k)"
      using v by (simp add: awaited_def)
  qed
  moreover have "\<forall>object' label'.
       keysOf object' = keysOf object \<and> (\<forall>k. await (get object' k) = await (get object k)) \<longrightarrow>
       (\<exists>res'. hash object' label' = Fulfills (Obj res') \<and> map_of res' = map_of (?res object))"
  proof (intro allI impI)
    fix object' label'
    assume h: "keysOf object' = keysOf object \<and> (\<forall>k. await (get object' k) = await (get object k))"
    then have "\<forall>k\<in>set (keysOf object'). \<exists>v. await (get object' k) = Fulfills v"
      using assms by simp
    then have 1: "hash object' label' = Fulfills (Obj (?res object'))"
      by (rule hash_fulfils)
    have "map_of (?res object') k = map_of (?res object) k" for k
      using h ks[of object] ks[of object']
      by (simp only: fold_update_map_of awaited_def)
    then have "map_of (?res object') = map_of (?res object)"
      by (rule ext)
    then show "\<exists>res'. hash object' label' = Fulfills (Obj res') \<and> map_of res' = map_of (?res object)"
      using 1 by blast
  qed
  ultimately show "\<exists>res. hash object label = Fulfills (Obj res)
            \<and> set (map fst res) = set (keysOf object) \<and> distinct (map fst res)
            \<and> (\<forall>k\<in>set (keysOf object). await (get object k) = Fulfills (get res k))
            \<and> (\<forall>object' label'.
                  keysOf object' = keysOf object
                  \<and> (\<forall>k. await (get object' k) = await (get object k)) \<longrightarrow>
                  (\<exists>res'. hash object' label' = Fulfills (Obj res') \<and> map_of res' = map_of res))"
    by blast
qed

theorem hash_fulfils_with_all_keys_witness:
  "\<exists>res. hash [(''a'', Thenable 4 (Fulfills (Str ''A''))), (''b'', Num 2)] Undefined = Fulfills (Obj res)
        \<and> set (map fst res) = {''a'', ''b''}
        \<and> get res ''a'' = Str ''A'' \<and> get res ''b'' = Num 2
        \<and> (\<exists>res'. hash [(''a'', Str ''A''), (''b'', Thenable 9 (Fulfills (Num 2)))] Undefined
                      = Fulfills (Obj res')
                  \<and> map_of res' = map_of res)"
proof -
  let ?o = "[(''a'', Thenable 4 (Fulfills (Str ''A''))), (''b'', Num 2)]"
  let ?o' = "[(''a'', Str ''A''), (''b'', Thenable 9 (Fulfills (Num 2)))]"
  have h: "\<forall>k\<in>set (keysOf ?o). \<exists>v. await (get ?o k) = Fulfills v"
    by (simp add: keysOf_def get_def)
  have same: "keysOf ?o' = keysOf ?o \<and> (\<forall>k. await (get ?o' k) = await (get ?o k))"
    by (simp add: keysOf_def get_def)
  from hash_fulfils_with_all_keys [OF h, of Undefined, THEN conjunct2, THEN conjunct2, THEN conjunct2]
  obtain res where res: "hash ?o Undefined = Fulfills (Obj res)"
    "set (map fst res) = set (keysOf ?o)"
    "\<forall>k\<in>set (keysOf ?o). await (get ?o k) = Fulfills (get res k)"
    "\<forall>object' label'. keysOf object' = keysOf ?o \<and> (\<forall>k. await (get object' k) = await (get ?o k)) \<longrightarrow>
       (\<exists>res'. hash object' label' = Fulfills (Obj res') \<and> map_of res' = map_of res)"
    by blast
  have "set (map fst res) = {''a'', ''b''}"
    using res(2) by (simp add: keysOf_def)
  moreover have "get res ''a'' = Str ''A''" "get res ''b'' = Num 2"
    using res(3) by (simp_all add: keysOf_def get_def)
  moreover have "\<exists>res'. hash ?o' Undefined = Fulfills (Obj res') \<and> map_of res' = map_of res"
    using res(4) same by blast
  ultimately show ?thesis
    using res(1) by blast
qed

text \<open>
  C10: the initializer of \<open>hash\<close> never raises (the property \<open>then\<close> of \<open>null\<close> or
  \<open>undefined\<close> is never read). It attaches handlers to exactly the entries that are
  truthy and have a callable \<open>then\<close>; a falsy entry is recorded under its key as it is
  and gets no handler; an entry with handlers is awaited, so the initializer records
  nothing under its key.
\<close>

theorem hash_records_or_awaits:
  "\<exists>st. hash_executor object (hash_init object) = Return st
     \<and> set (attached st) =
         {k \<in> set (keysOf object). truthy (get object k) \<and> callable_then (get object k) = Some True}
     \<and> (\<forall>k\<in>set (keysOf object). \<not> truthy (get object k) \<longrightarrow>
           map_of (results st) k = Some (get object k) \<and> k \<notin> set (attached st))
     \<and> (\<forall>k\<in>set (keysOf object). thenable (get object k) \<longrightarrow>
           k \<in> set (attached st) \<and> map_of (results st) k = None)"
proof (cases "keysOf object = []")
  case True
  show ?thesis
    unfolding hash_executor_empty[OF True]
    using True by (simp add: resolve_def hash_init_def)
next
  case False
  show ?thesis
    unfolding hash_executor_nonempty[OF False]
    by (auto simp: fold_resolveAll_fields fold_update_map_of hash_init_def thenable_def)
qed

theorem hash_records_or_awaits_witness:
  "\<exists>st. hash_executor [(''z'', Num 0), (''n'', Null), (''t'', Thenable 1 (Fulfills (Num 5)))]
           (hash_init [(''z'', Num 0), (''n'', Null), (''t'', Thenable 1 (Fulfills (Num 5)))]) = Return st
     \<and> set (attached st) = {''t''}
     \<and> map_of (results st) ''z'' = Some (Num 0) \<and> map_of (results st) ''n'' = Some Null
     \<and> map_of (results st) ''t'' = None"
proof -
  let ?o = "[(''z'', Num 0), (''n'', Null), (''t'', Thenable 1 (Fulfills (Num 5)))]"
  from hash_records_or_awaits [of ?o]
  obtain st where st: "hash_executor ?o (hash_init ?o) = Return st"
    "set (attached st) = {k \<in> set (keysOf ?o). truthy (get ?o k) \<and> callable_then (get ?o k) = Some True}"
    "\<forall>k\<in>set (keysOf ?o). \<not> truthy (get ?o k) \<longrightarrow>
           map_of (results st) k = Some (get ?o k) \<and> k \<notin> set (attached st)"
    "\<forall>k\<in>set (keysOf ?o). thenable (get ?o k) \<longrightarrow>
           k \<in> set (attached st) \<and> map_of (results st) k = None"
    by blast
  have "set (attached st) = {''t''}"
    unfolding st(2) by (auto simp: keysOf_def get_def)
  moreover have "map_of (results st) ''z'' = Some (Num 0)" "map_of (results st) ''n'' = Some Null"
    using st(3) by (simp_all add: keysOf_def get_def)
  moreover have "map_of (results st) ''t'' = None"
    using st(4) by (simp add: keysOf_def get_def thenable_def)
  ultimately show ?thesis
    using st(1) by blast
qed

section \<open>First failure wins\<close>

lemma first_failure_None: "first_failure ps = None \<Longrightarrow> \<forall>q\<in>set ps. \<forall>r. await q \<noteq> Rejects r"
  by (induction ps) (auto split: settle.splits option.splits if_splits)

lemma first_failure_Some:
  "first_failure ps = Some (t, r) \<Longrightarrow>
     \<exists>p\<in>set ps. await p = Rejects r \<and> settle_time p = t \<and>
       (\<forall>q\<in>set ps. \<forall>r'. await q = Rejects r' \<longrightarrow> t \<le> settle_time q)"
proof (induction ps arbitrary: t r)
  case Nil
  then show ?case by simp
next
  case (Cons p ps)
  show ?case
  proof (cases "await p")
    case (Rejects rp)
    show ?thesis
    proof (cases "first_failure ps")
      case None
      then show ?thesis
        using Cons.prems Rejects first_failure_None[OF None] by auto
    next
      case (Some tr)
      obtain t' r' where tr: "tr = (t', r')"
        by (cases tr)
      from Cons.IH[OF Some[unfolded tr]] obtain p' where p': "p' \<in> set ps" "await p' = Rejects r'"
        "settle_time p' = t'" "\<forall>q\<in>set ps. \<forall>r'. await q = Rejects r' \<longrightarrow> t' \<le> settle_time q"
        by blast
      show ?thesis
      proof (cases "settle_time p \<le> t'")
        case True
        then have "t = settle_time p" "r = rp"
          using Cons.prems Rejects Some tr by simp_all
        then show ?thesis
          using Rejects True p'(4) by fastforce
      next
        case False
        then have "t = t'" "r = r'"
          using Cons.prems Rejects Some tr by simp_all
        then show ?thesis
          using False p' by fastforce
      qed
    qed
  next
    case (Fulfills v)
    then show ?thesis
      using Cons by fastforce
  next
    case Never
    then show ?thesis
      using Cons by fastforce
  qed
qed

lemma fails_first_first_failure:
  assumes "fails_first ps r"
  shows "\<exists>t. first_failure ps = Some (t, r)"
proof -
  from assms obtain p where p: "p \<in> set ps" "await p = Rejects r"
    and first: "\<And>q r'. q \<in> set ps \<Longrightarrow> await q = Rejects r' \<Longrightarrow> q = p \<or> settle_time p < settle_time q"
    unfolding fails_first_def by (fastforce split: settle.splits)
  obtain t r1 where ff: "first_failure ps = Some (t, r1)"
    using first_failure_None[of ps] p by (cases "first_failure ps") auto
  from first_failure_Some[OF ff] obtain p1 where p1: "p1 \<in> set ps" "await p1 = Rejects r1"
    "settle_time p1 = t" "\<forall>q\<in>set ps. \<forall>r'. await q = Rejects r' \<longrightarrow> t \<le> settle_time q"
    by blast
  have "p1 = p"
    using first[OF p1(1,2)] p1(3,4) p by fastforce
  then show ?thesis
    using ff p p1 by simp
qed

lemma all_fails_first: "fails_first ps r \<Longrightarrow> all (Arr ps) label = Rejects r"
  using fails_first_first_failure[of ps r] by (auto simp: all_def)

text \<open>
  C3: when some entry of the collection fails first (it is rejected with \<open>r\<close> and every
  other failing entry fails later), the futures returned by \<open>map\<close>, by \<open>filter\<close> and by
  \<open>hash\<close> reject with exactly \<open>r\<close>, the reason itself and nothing wrapped around it.
  Nothing of the other entries shows: the callback of \<open>map\<close> and \<open>filter\<close> is never
  invoked, and \<open>hash\<close> delivers no mapping.
\<close>

theorem first_failure_wins:
  assumes "fails_first ps r"
  shows "map_rsvp (Arr ps) (Fun f) label s = \<lparr>outcome = Inr (Rejects r), fnState = s, calls = []\<rparr>
       \<and> filter_rsvp (Arr ps) (Fun f) label s =
           Some \<lparr>outcome = Inr (Rejects r), fnState = s, calls = [], recursions = 0\<rparr>
       \<and> (\<forall>object. map (get object) (keysOf object) = ps \<longrightarrow> hash object label = Rejects r)"
proof (intro conjI allI impI)
  show "map_rsvp (Arr ps) (Fun f) label s = \<lparr>outcome = Inr (Rejects r), fnState = s, calls = []\<rparr>"
    by (simp add: map_rsvp_def all_fails_first[OF assms])
  show "filter_rsvp (Arr ps) (Fun f) label s =
      Some \<lparr>outcome = Inr (Rejects r), fnState = s, calls = [], recursions = 0\<rparr>"
    by (subst filter_rsvp.simps) (simp add: all_fails_first[OF assms])
next
  fix object
  assume "map (get object) (keysOf object) = ps"
  then show "hash object label = Rejects r"
    using assms hash_fails_first by blast
qed

theorem first_failure_wins_witness:
  "map_rsvp (Arr [Thenable 7 (Rejects (Str ''late'')), Num 1, Thenable 3 (Rejects (Str ''boom''))])
      (Fun (\<lambda>x s. (Return x, Suc s))) Undefined 0 =
     \<lparr>outcome = Inr (Rejects (Str ''boom'')), fnState = 0, calls = []\<rparr>
   \<and> filter_rsvp (Arr [Thenable 7 (Rejects (Str ''late'')), Num 1, Thenable 3 (Rejects (Str ''boom''))])
      (Fun (\<lambda>x s. (Return x, Suc s))) Undefined 0 =
     Some \<lparr>outcome = Inr (Rejects (Str ''boom'')), fnState = 0, calls = [], recursions = 0\<rparr>
   \<and> hash [(''c'', Thenable 7 (Rejects (Str ''late''))), (''a'', Num 1),
            (''b'', Thenable 3 (Rejects (Str ''boom'')))] Undefined = Rejects (Str ''boom'')"
proof -
  have h: "fails_first [Thenable 7 (Rejects (Str ''late'')), Num 1, Thenable 3 (Rejects (Str ''boom''))]
             (Str ''boom'')"
    by (simp add: fails_first_def)
  have k: "map (get [(''c'', Thenable 7 (Rejects (Str ''late''))), (''a'', Num 1),
                     (''b'', Thenable 3 (Rejects (Str ''boom'')))])
             (keysOf [(''c'', Thenable 7 (Rejects (Str ''late''))), (''a'', Num 1),
                      (''b'', Thenable 3 (Rejects (Str ''boom'')))])
           = [Thenable 7 (Rejects (Str ''late'')), Num 1, Thenable 3 (Rejects (Str ''boom''))]"
    by (simp add: keysOf_def get_def)
  note w = first_failure_wins [OF h, of "\<lambda>x s. (Return x, Suc s)" Undefined 0]
  show ?thesis
    using w[THEN conjunct1] w[THEN conjunct2, THEN conjunct1]
      w[THEN conjunct2, THEN conjunct2, rule_format, OF k]
    by (intro conjI)
qed

section \<open>Properties of \<open>rethrow\<close>\<close>

text \<open>
  C9: \<open>rethrow(reason)\<close> throws \<open>reason\<close> in the current call and never returns, and it
  appends to the task queue one task that throws the same \<open>reason\<close> when it is run.
  Used as the rejection handler of a future rejected with \<open>reason\<close>, it makes the
  following future reject with \<open>reason\<close>.
\<close>

theorem rethrow_raises_and_schedules:
  "fst (rethrow reason queue) = Throw reason
   \<and> (\<forall>v. fst (rethrow reason queue) \<noteq> Return v)
   \<and> (\<exists>task. snd (rethrow reason queue) = queue @ [task] \<and> task () = Throw reason)
   \<and> (await promise = Rejects reason \<longrightarrow>
        fail_rsvp promise rethrow queue = (Rejects reason, snd (rethrow reason queue)))"
  by (simp add: rethrow_def setTimeout_def fail_rsvp_def)

theorem rethrow_raises_and_schedules_witness:
  "fst (rethrow (Str ''Whoops!'') []) = Throw (Str ''Whoops!'')
   \<and> (\<exists>task. snd (rethrow (Str ''Whoops!'') []) = [task] \<and> task () = Throw (Str ''Whoops!''))
   \<and> fst (fail_rsvp (Thenable 1 (Rejects (Str ''Whoops!''))) rethrow []) = Rejects (Str ''Whoops!'')"
  using rethrow_raises_and_schedules
    [of "Str ''Whoops!''" "[]" "Thenable 1 (Rejects (Str ''Whoops!''))"]
  by simp

end
